theory Spec2Isabelle
  imports Main "HOL-Library.Word"
begin

unbundle bit_operations_syntax

section \<open>C integers and the program's fatal errors\<close>

text \<open>
  The program (abbrase.c) computes with the C type \<open>int\<close>, 32 bits wide on the targets
  it is built for. The model keeps the values as mathematical integers and writes the
  range out: an arithmetic step whose result does not fit is undefined behaviour in C,
  and the model stops there with \<open>SignedOverflow\<close> instead of inventing a result.
  The calls of \<open>err\<close> and \<open>errx\<close> end the process; they are the other errors.
\<close>

definition INT_MAX :: int where
  "INT_MAX = 2147483647"

definition INT_MIN :: int where
  "INT_MIN = - 2147483648"

definition is_int :: "int \<Rightarrow> bool" where
  "is_int x = (INT_MIN \<le> x \<and> x \<le> INT_MAX)"

datatype error =
    CorruptedFile            \<comment> \<open>err(1, "corrupted wordgraph file")\<close>
  | TooManyPrefixes          \<comment> \<open>errx(2, "... too many prefixes")\<close>
  | NotEnoughPrefixes        \<comment> \<open>errx(3, "... not enough prefixes")\<close>
  | InvalidVectorIndex       \<comment> \<open>err(10, "invalid vector index ...")\<close>
  | SignedOverflow           \<comment> \<open>undefined: an int result out of range, or a shift too far\<close>
  | ReadPastTerminator       \<comment> \<open>undefined: a read behind the NUL that ends a string\<close>
  | InvalidAccess            \<comment> \<open>undefined: an array read out of range or through NULL\<close>

definition int_sub :: "int \<Rightarrow> int \<Rightarrow> error + int" where
  "int_sub a b = (if is_int (a - b) then Inr (a - b) else Inl SignedOverflow)"

definition int_add :: "int \<Rightarrow> int \<Rightarrow> error + int" where
  "int_add a b = (if is_int (a + b) then Inr (a + b) else Inl SignedOverflow)"

section \<open>IntVec\<close>

text \<open>
  \<open>struct IntVec\<close> is a growable array: \<open>data[0..len)\<close> holds the elements and
  \<open>cap\<close> only drives \<open>realloc\<close>. The model is the list of the \<open>len\<close> elements.
\<close>

type_synonym intvec = "int list"

definition intvec_alloc :: intvec where
  "intvec_alloc = []"

definition intvec_append :: "intvec \<Rightarrow> int \<Rightarrow> intvec" where
  "intvec_append vec val = vec @ [val]"

definition intvec_get :: "intvec \<Rightarrow> int \<Rightarrow> error + int" where
  "intvec_get vec pos =
     (if pos < 0 \<or> pos \<ge> int (length vec) then Inl InvalidVectorIndex
      else Inr (vec ! nat pos))"

function intvec_copy_loop :: "intvec \<Rightarrow> nat \<Rightarrow> intvec \<Rightarrow> intvec" where
  "intvec_copy_loop vec i ret =
     (if i < length vec then intvec_copy_loop vec (i + 1) (intvec_append ret (vec ! i))
      else ret)"
  by pat_completeness auto
termination
  by (relation "measure (\<lambda>(vec, i, ret). length vec - i)") auto

declare intvec_copy_loop.simps [simp del]

definition intvec_copy :: "intvec \<Rightarrow> intvec" where
  "intvec_copy vec = intvec_copy_loop vec 0 intvec_alloc"

text \<open>
  \<open>intvec_intersect\<close>: the two cursors \<open>ai\<close>, \<open>bi\<close> and the result built so far.
  The comparison is the subtraction \<open>a->data[ai] - b->data[bi]\<close>, an \<open>int\<close>.
\<close>

function intersect_loop ::
  "intvec \<Rightarrow> intvec \<Rightarrow> nat \<Rightarrow> nat \<Rightarrow> intvec \<Rightarrow> error + intvec" where
  "intersect_loop a b ai bi ret =
     (if ai < length a \<and> bi < length b then
        (case int_sub (a ! ai) (b ! bi) of
           Inl e \<Rightarrow> Inl e
         | Inr diff \<Rightarrow>
             if diff = 0 then
               intersect_loop a b (ai + 1) (bi + 1) (intvec_append ret (a ! ai))
             else if diff < 0 then intersect_loop a b (ai + 1) bi ret
             else intersect_loop a b ai (bi + 1) ret)
      else Inr ret)"
  by pat_completeness auto
termination
  by (relation "measure (\<lambda>(a, b, ai, bi, ret). (length a - ai) + (length b - bi))") auto

declare intersect_loop.simps [simp del]

definition intvec_intersect :: "intvec \<Rightarrow> intvec \<Rightarrow> error + intvec" where
  "intvec_intersect a b = intersect_loop a b 0 0 intvec_alloc"

section \<open>C strings\<close>

text \<open>
  A \<open>char *\<close> argument is modelled by the bytes of its buffer; the buffer continues
  with a NUL (getline and argv both end their strings so). The string the C code sees
  ends at the first NUL: \<open>c_str\<close>. Reading at the terminator gives NUL; the model stops
  with \<open>ReadPastTerminator\<close> at any read behind it.
\<close>

definition c_str :: "string \<Rightarrow> string" where
  "c_str buf = takeWhile (\<lambda>c. c \<noteq> CHR 0x00) buf"

definition strlen :: "string \<Rightarrow> nat" where
  "strlen buf = length (c_str buf)"

definition str_at :: "string \<Rightarrow> nat \<Rightarrow> error + char" where
  "str_at buf i =
     (if i < strlen buf then Inr (buf ! i)
      else if i = strlen buf then Inr (CHR 0x00)
      else Inl ReadPastTerminator)"

section \<open>The adjacency codec: decode\<close>

text \<open>
  \<open>(val & 0x1f) << (5 * delta_ind)\<close> on an \<open>int\<close>: undefined when the width is
  reached or the result does not fit.
\<close>

definition int_shl :: "int \<Rightarrow> nat \<Rightarrow> error + int" where
  "int_shl a n =
     (if a < 0 \<or> n \<ge> 32 \<or> \<not> is_int (push_bit n a) then Inl SignedOverflow
      else Inr (push_bit n a))"

text \<open>
  The \<open>do ... while (val & 0x20)\<close> loop of \<open>decode\<close>; \<open>val\<close> is the
  \<open>unsigned char\<close> value of the byte. It returns \<open>delta\<close> and \<open>delta_ind\<close>.
\<close>

function varint_loop :: "string \<Rightarrow> nat \<Rightarrow> int \<Rightarrow> nat \<Rightarrow> error + (int \<times> nat)" where
  "varint_loop enc enc_ind delta delta_ind =
     (case str_at enc (enc_ind + delta_ind) of
        Inl e \<Rightarrow> Inl e
      | Inr c \<Rightarrow>
          (case int_shl (of_char c AND 0x1f) (5 * delta_ind) of
             Inl e \<Rightarrow> Inl e
           | Inr d \<Rightarrow>
               if (of_char c :: nat) AND 0x20 \<noteq> 0
               then varint_loop enc enc_ind (delta OR d) (delta_ind + 1)
               else Inr (delta OR d, delta_ind + 1)))"
  by pat_completeness auto
termination
  by (relation "measure (\<lambda>(enc, enc_ind, delta, delta_ind). Suc (strlen enc) - (enc_ind + delta_ind))")
     (auto simp: str_at_def split: if_splits)

declare varint_loop.simps [simp del]

text \<open>
  One turn of the \<open>while\<close> body of \<open>decode\<close> up to \<open>enc_ind += delta_ind\<close>: it
  returns \<open>delta\<close>, \<open>delta_ind\<close> and the new \<open>zero_run\<close>. \<open>zero_run\<close> only holds
  values 0..31 (it starts at 0 and is set from \<open>& 0x1f\<close>), so it is a \<open>nat\<close>.
\<close>

definition decode_token :: "string \<Rightarrow> nat \<Rightarrow> nat \<Rightarrow> error + (int \<times> nat \<times> nat)" where
  "decode_token enc enc_ind zero_run =
     (if zero_run \<noteq> 0 then Inr (0, 0, zero_run - 1)
      else
        (case str_at enc enc_ind of
           Inl e \<Rightarrow> Inl e
         | Inr c \<Rightarrow>
             if (of_char c :: nat) \<ge> 0x60 then Inr (0, 1, of_char c AND 0x1f)
             else
               (case varint_loop enc enc_ind 0 0 of
                  Inl e \<Rightarrow> Inl e
                | Inr (delta, delta_ind) \<Rightarrow> Inr (delta, delta_ind, 0))))"

lemma varint_loop_advances:
  "varint_loop enc enc_ind delta delta_ind = Inr (delta', delta_ind') \<Longrightarrow> delta_ind < delta_ind'"
proof (induction enc enc_ind delta delta_ind rule: varint_loop.induct)
  case (1 enc enc_ind delta delta_ind)
  from "1.prems" show ?case
    by (subst (asm) varint_loop.simps)
       (auto split: sum.splits if_splits dest: "1.IH")
qed

lemma decode_token_advances:
  "decode_token enc enc_ind zero_run = Inr (delta, delta_ind, zero_run') \<Longrightarrow>
   (zero_run \<noteq> 0 \<and> delta_ind = 0 \<and> zero_run' < zero_run) \<or> 0 < delta_ind"
  by (auto simp: decode_token_def split: sum.splits if_splits dest: varint_loop_advances)

function decode_loop :: "string \<Rightarrow> nat \<Rightarrow> int \<Rightarrow> nat \<Rightarrow> intvec \<Rightarrow> error + intvec" where
  "decode_loop enc enc_ind last_num zero_run dec =
     (case str_at enc enc_ind of
        Inl e \<Rightarrow> Inl e
      | Inr c \<Rightarrow>
          if c \<noteq> CHR 0x00 \<or> zero_run \<noteq> 0 then
            (case decode_token enc enc_ind zero_run of
               Inl e \<Rightarrow> Inl e
             | Inr (delta, delta_ind, zero_run') \<Rightarrow>
                 (case int_add delta 1 of
                    Inl e \<Rightarrow> Inl e
                  | Inr d1 \<Rightarrow>
                      (case int_add last_num d1 of
                         Inl e \<Rightarrow> Inl e
                       | Inr last_num' \<Rightarrow>
                           decode_loop enc (enc_ind + delta_ind) last_num' zero_run'
                             (intvec_append dec last_num'))))
          else Inr dec)"
  by pat_completeness auto
termination
proof (relation "measures [\<lambda>(enc, enc_ind, last_num, zero_run, dec). Suc (strlen enc) - enc_ind,
                           \<lambda>(enc, enc_ind, last_num, zero_run, dec). zero_run]", goal_cases)
  case 1
  show ?case by simp
next
  case (2 enc enc_ind last_num zero_run dec c x y delta_ind z zero_run' d1 last_num')
  from 2 have "decode_token enc enc_ind zero_run = Inr (y, z, zero_run')"
    by simp
  from decode_token_advances [OF this] 2(1) show ?case
    by (auto simp: str_at_def split: if_splits)
qed

declare decode_loop.simps [simp del]

definition decode :: "string \<Rightarrow> error + intvec" where
  "decode enc = decode_loop enc 0 0 0 intvec_alloc"

section \<open>The word graph\<close>

definition MAX_PREFIXES :: nat where
  "MAX_PREFIXES = 1024"

definition PREFIX_LEN :: nat where
  "PREFIX_LEN = 3"

text \<open>
  \<open>struct WordGraph\<close>. The arrays \<open>words\<close> and \<open>followers_compressed\<close> come from
  \<open>calloc\<close>: an entry is NULL (\<open>None\<close>) until a line is stored in it. Of the fixed
  array \<open>prefixes[MAX_PREFIXES]\<close> only the first \<open>n_prefixes\<close> entries are initialised;
  the model keeps exactly those, so \<open>n_prefixes\<close> is the length of the list.
\<close>

record wordgraph =
  n_words :: int
  words :: "string option list"
  followers_compressed :: "string option list"
  prefixes :: "(string \<times> intvec) list"

definition n_prefixes :: "wordgraph \<Rightarrow> nat" where
  "n_prefixes g = length (prefixes g)"

text \<open>
  The opened file after \<open>fscanf(graph_file, "%d ", &g->n_words)\<close>: the number it read
  (\<open>None\<close> when it read none) and the lines that follow, each as \<open>getline_trimmed\<close>
  returns it (without its newline).
\<close>

record corpus_file =
  header :: "int option"
  body :: "string list"

text \<open>\<open>tolower\<close> of the C locale, the one the program runs in.\<close>

definition tolower :: "char \<Rightarrow> char" where
  "tolower c =
     (if 65 \<le> (of_char c :: nat) \<and> (of_char c :: nat) \<le> 90
      then char_of (of_char c + 32 :: nat) else c)"

text \<open>\<open>for (j = 0; j < PREFIX_LEN; j++) prefix[j] = tolower(g->words[i][j]);\<close>\<close>

function prefix_loop :: "string \<Rightarrow> nat \<Rightarrow> string \<Rightarrow> error + string" where
  "prefix_loop word j prefix =
     (if j < PREFIX_LEN then
        (case str_at word j of
           Inl e \<Rightarrow> Inl e
         | Inr c \<Rightarrow> prefix_loop word (j + 1) (prefix @ [tolower c]))
      else Inr prefix)"
  by pat_completeness auto
termination
  by (relation "measure (\<lambda>(word, j, prefix). PREFIX_LEN - j)") auto

declare prefix_loop.simps [simp del]

text \<open>
  The loop that adds word \<open>i\<close> to its prefix group: a linear scan over the groups, a new
  group at the end when none matches, \<open>errx(2, ...)\<close> when the table is full.
\<close>

function add_prefix_loop ::
  "(string \<times> intvec) list \<Rightarrow> string \<Rightarrow> int \<Rightarrow> nat \<Rightarrow> error + (string \<times> intvec) list" where
  "add_prefix_loop ps prefix i j =
     (if j \<le> length ps then
        (if j = length ps \<and> length ps = MAX_PREFIXES then Inl TooManyPrefixes
         else
           (let ps' = (if j = length ps then ps @ [(prefix, intvec_alloc)] else ps) in
            if fst (ps' ! j) = prefix
            then Inr (ps'[j := (fst (ps' ! j), intvec_append (snd (ps' ! j)) i)])
            else add_prefix_loop ps' prefix i (j + 1)))
      else Inr ps)"
  by pat_completeness auto
termination
  by (relation "measure (\<lambda>(ps, prefix, i, j). Suc (length ps) - j)")
     (auto split: if_splits)

declare add_prefix_loop.simps [simp del]

text \<open>\<open>for (i = 1; i < g->n_words; i++)\<close>: one word line per turn.\<close>

fun read_words :: "int \<Rightarrow> string list \<Rightarrow> wordgraph \<Rightarrow> error + (string list \<times> wordgraph)" where
  "read_words i ls g =
     (if i < n_words g then
        (case ls of
           [] \<Rightarrow> Inl CorruptedFile
         | l # ls' \<Rightarrow>
             (case prefix_loop l 0 [] of
                Inl e \<Rightarrow> Inl e
              | Inr prefix \<Rightarrow>
                  (case add_prefix_loop (prefixes g) prefix i 0 of
                     Inl e \<Rightarrow> Inl e
                   | Inr ps \<Rightarrow>
                       read_words (i + 1) ls'
                         (g\<lparr>words := (words g)[nat i := Some l], prefixes := ps\<rparr>))))
      else Inr (ls, g))"

declare read_words.simps [simp del]

text \<open>\<open>for (i = 0; i < g->n_words; i++) getline_trimmed(&g->followers_compressed[i], ...)\<close>\<close>

fun read_followers :: "int \<Rightarrow> string list \<Rightarrow> wordgraph \<Rightarrow> error + (string list \<times> wordgraph)" where
  "read_followers i ls g =
     (if i < n_words g then
        (case ls of
           [] \<Rightarrow> Inl CorruptedFile
         | l # ls' \<Rightarrow>
             read_followers (i + 1) ls'
               (g\<lparr>followers_compressed := (followers_compressed g)[nat i := Some l]\<rparr>))
      else Inr (ls, g))"

declare read_followers.simps [simp del]

definition wordgraph_init :: "corpus_file \<Rightarrow> error + wordgraph" where
  "wordgraph_init f =
     (case header f of
        None \<Rightarrow> Inl CorruptedFile
      | Some n \<Rightarrow>
          (case read_words 1 (body f)
                  \<lparr>n_words = n, words = replicate (nat n) None,
                   followers_compressed = replicate (nat n) None, prefixes = []\<rparr> of
             Inl e \<Rightarrow> Inl e
           | Inr (ls, g) \<Rightarrow>
               if n_prefixes g \<noteq> MAX_PREFIXES then Inl NotEnoughPrefixes
               else
                 (case read_followers 0 ls g of
                    Inl e \<Rightarrow> Inl e
                  | Inr (ls', g') \<Rightarrow> Inr g')))"

text \<open>The reads \<open>g->words[i]\<close>, \<open>g->followers_compressed[i]\<close> and \<open>g->prefixes[k].words\<close>.\<close>

definition word_at :: "wordgraph \<Rightarrow> int \<Rightarrow> error + string" where
  "word_at g i =
     (if 0 \<le> i \<and> i < int (length (words g)) then
        (case words g ! nat i of None \<Rightarrow> Inl InvalidAccess | Some w \<Rightarrow> Inr w)
      else Inl InvalidAccess)"

definition followers_at :: "wordgraph \<Rightarrow> int \<Rightarrow> error + string" where
  "followers_at g i =
     (if 0 \<le> i \<and> i < int (length (followers_compressed g)) then
        (case followers_compressed g ! nat i of None \<Rightarrow> Inl InvalidAccess | Some w \<Rightarrow> Inr w)
      else Inl InvalidAccess)"

definition prefix_words :: "wordgraph \<Rightarrow> int \<Rightarrow> error + intvec" where
  "prefix_words g k =
     (if 0 \<le> k \<and> k < int (n_prefixes g) then Inr (snd (prefixes g ! nat k))
      else Inl InvalidAccess)"

section \<open>The fuzzy matcher\<close>

text \<open>
  \<open>edit_distance\<close>. The row \<open>cost[0..n]\<close> is a list; \<open>a\<close> is the shorter string after
  the swap, and \<open>c\<close> is \<open>b[i - 1]\<close>. The counters are bounded by the lengths of the two
  strings (a dictionary line, a command-line argument), far below \<open>INT_MAX\<close>: they are
  natural numbers here.
\<close>

function edit_inner :: "string \<Rightarrow> char \<Rightarrow> nat \<Rightarrow> nat \<Rightarrow> nat list \<Rightarrow> nat \<Rightarrow> nat list" where
  "edit_inner a c n j cost prevdiag =
     (if j < n + 1 then
        (let ins = cost ! j + 1;
             del = cost ! (j - 1) + 1;
             sub = (if a ! (j - 1) \<noteq> c then prevdiag + 1 else prevdiag)
         in edit_inner a c n (j + 1) (cost[j := min ins (min del sub)]) (cost ! j))
      else cost)"
  by pat_completeness auto
termination
  by (relation "measure (\<lambda>(a, c, n, j, cost, prevdiag). Suc n - j)") auto

declare edit_inner.simps [simp del]

function edit_outer :: "string \<Rightarrow> string \<Rightarrow> nat \<Rightarrow> nat \<Rightarrow> nat \<Rightarrow> nat list \<Rightarrow> nat list" where
  "edit_outer a b n m i cost =
     (if i < m + 1 then
        edit_outer a b n m (i + 1) (edit_inner a (b ! (i - 1)) n 1 (cost[0 := i]) (cost ! 0))
      else cost)"
  by pat_completeness auto
termination
  by (relation "measure (\<lambda>(a, b, n, m, i, cost). Suc m - i)") auto

declare edit_outer.simps [simp del]

definition edit_distance :: "string \<Rightarrow> string \<Rightarrow> nat" where
  "edit_distance a b =
     (let n = strlen a; m = strlen b;
          (a, b, n, m) = (if n > m then (b, a, m, n) else (a, b, n, m))
      in edit_outer a b n m 1 [0..<n + 1] ! n)"

text \<open>
  \<open>wordgraph_find_word\<close>: the scan over the ids 1..n_words-1, with \<open>best_word = 0\<close> and
  \<open>best_dist = 10000\<close> at the start.
\<close>

function find_word_loop :: "wordgraph \<Rightarrow> string \<Rightarrow> int \<Rightarrow> int \<Rightarrow> nat \<Rightarrow> error + int" where
  "find_word_loop g word i best_word best_dist =
     (if i < n_words g then
        (case word_at g i of
           Inl e \<Rightarrow> Inl e
         | Inr w \<Rightarrow>
             (let dist = edit_distance word w in
              if dist < best_dist then find_word_loop g word (i + 1) i dist
              else find_word_loop g word (i + 1) best_word best_dist))
      else Inr best_word)"
  by pat_completeness auto
termination
  by (relation "measure (\<lambda>(g, word, i, best_word, best_dist). nat (n_words g - i))") auto

declare find_word_loop.simps [simp del]

definition wordgraph_find_word :: "wordgraph \<Rightarrow> string \<Rightarrow> error + int" where
  "wordgraph_find_word g word = find_word_loop g word 1 0 10000"

section \<open>The passphrase generator: one turn of \<open>while (count--)\<close> in main\<close>

text \<open>
  The ints read from /dev/urandom are the argument \<open>rnd\<close>; its length is the chain
  length. First loop: mask each to a prefix id and copy that group's words.
\<close>

fun choose_sets :: "wordgraph \<Rightarrow> int list \<Rightarrow> error + (int list \<times> intvec list)" where
  "choose_sets g [] = Inr ([], [])"
| "choose_sets g (r # rs) =
     (case prefix_words g (r AND (int MAX_PREFIXES - 1)) of
        Inl e \<Rightarrow> Inl e
      | Inr ws \<Rightarrow>
          (case choose_sets g rs of
             Inl e \<Rightarrow> Inl e
           | Inr (ps, sets) \<Rightarrow> Inr ((r AND (int MAX_PREFIXES - 1)) # ps, intvec_copy ws # sets)))"

text \<open>
  The inner loop of the backward pass: keep the words of \<open>words\<close> that have a follower
  in \<open>next_words\<close>.
\<close>

function narrow_loop ::
  "wordgraph \<Rightarrow> intvec \<Rightarrow> intvec \<Rightarrow> nat \<Rightarrow> intvec \<Rightarrow> error + intvec" where
  "narrow_loop g next_words ws j new_words =
     (if j < length ws then
        (case intvec_get ws (int j) of
           Inl e \<Rightarrow> Inl e
         | Inr word \<Rightarrow>
             (case followers_at g word of
                Inl e \<Rightarrow> Inl e
              | Inr fc \<Rightarrow>
                  (case decode fc of
                     Inl e \<Rightarrow> Inl e
                   | Inr followers \<Rightarrow>
                       (case intvec_intersect next_words followers of
                          Inl e \<Rightarrow> Inl e
                        | Inr intersect \<Rightarrow>
                            narrow_loop g next_words ws (j + 1)
                              (if length intersect \<noteq> 0 then intvec_append new_words word
                               else new_words)))))
      else Inr new_words)"
  by pat_completeness auto
termination
  by (relation "measure (\<lambda>(g, next_words, ws, j, new_words). length ws - j)") auto

declare narrow_loop.simps [simp del]

text \<open>
  The backward pass, \<open>for (i = length - 1; i >= 0; i--)\<close>. The first argument is
  \<open>i + 1\<close>; \<open>next_words\<close> is \<open>None\<close> for the NULL it starts with.
\<close>

fun backward_loop ::
  "wordgraph \<Rightarrow> nat \<Rightarrow> intvec list \<Rightarrow> nat \<Rightarrow> intvec option \<Rightarrow> error + (intvec list \<times> nat)" where
  "backward_loop g 0 word_sets mismatch next_words = Inr (word_sets, mismatch)"
| "backward_loop g (Suc i) word_sets mismatch next_words =
     (case (case next_words of
              None \<Rightarrow> Inr intvec_alloc
            | Some nw \<Rightarrow> narrow_loop g nw (word_sets ! i) 0 intvec_alloc) of
        Inl e \<Rightarrow> Inl e
      | Inr new_words \<Rightarrow>
          if length new_words \<noteq> 0
          then backward_loop g i (word_sets[i := new_words]) mismatch (Some new_words)
          else backward_loop g i word_sets (mismatch + 1) (Some (word_sets ! i)))"

text \<open>
  The forward pass, \<open>for (i = 0; i < length; i++)\<close>; \<open>picked\<close> collects the words it
  prints.
\<close>

function forward_loop ::
  "wordgraph \<Rightarrow> intvec list \<Rightarrow> nat \<Rightarrow> int \<Rightarrow> int list \<Rightarrow> error + int list" where
  "forward_loop g word_sets i last_word picked =
     (if i < length word_sets then
        (case followers_at g last_word of
           Inl e \<Rightarrow> Inl e
         | Inr fc \<Rightarrow>
             (case decode fc of
                Inl e \<Rightarrow> Inl e
              | Inr followers \<Rightarrow>
                  (case intvec_intersect (word_sets ! i) followers of
                     Inl e \<Rightarrow> Inl e
                   | Inr intersect \<Rightarrow>
                       (case intvec_get (if length intersect \<noteq> 0 then intersect
                                         else word_sets ! i) 0 of
                          Inl e \<Rightarrow> Inl e
                        | Inr w \<Rightarrow> forward_loop g word_sets (i + 1) w (picked @ [w])))))
      else Inr picked)"
  by pat_completeness auto
termination
  by (relation "measure (\<lambda>(g, word_sets, i, last_word, picked). length word_sets - i)") auto

declare forward_loop.simps [simp del]

record round =
  chosen_prefixes :: "int list"
  final_sets :: "intvec list"
  mismatches :: nat
  chosen_words :: "int list"

definition generate :: "wordgraph \<Rightarrow> int list \<Rightarrow> int \<Rightarrow> error + round" where
  "generate g rnd start_word =
     (case choose_sets g rnd of
        Inl e \<Rightarrow> Inl e
      | Inr (ps, sets) \<Rightarrow>
          (case backward_loop g (length rnd) sets 0 None of
             Inl e \<Rightarrow> Inl e
           | Inr (sets', mm) \<Rightarrow>
               (case forward_loop g sets' 0 start_word [] of
                  Inl e \<Rightarrow> Inl e
                | Inr ws \<Rightarrow>
                    Inr \<lparr>chosen_prefixes = ps, final_sets = sets', mismatches = mm,
                         chosen_words = ws\<rparr>)))"

section \<open>The encoding of the adjacency lists\<close>

text \<open>
  Modelled from the spec: the encoder is not among the sources (the comment in
  \<open>decode\<close> names it, digest.py). These are the steps of the spec's section 4.1, with
  the byte values of the comment's example in \<open>decode\<close> ("bA*B" for 1, 2, 3, 5, 80):
  a varint digit is \<open>0x20 + d\<close> when more digits follow and \<open>0x40 + d\<close> when it is the
  last, a run of \<open>n\<close> zero deltas (1..32) is the byte \<open>0x60 + (n - 1)\<close>.
\<close>

fun deltas :: "int \<Rightarrow> int list \<Rightarrow> int list" where
  "deltas prev [] = []"
| "deltas prev (x # xs) = (x - prev) # deltas x xs"

datatype token = Delta int | ZeroRun nat

fun contract :: "int list \<Rightarrow> token list" where
  "contract [] = []"
| "contract (d # ds) =
     (if d = 0 then
        (case contract ds of
           ZeroRun n # ts \<Rightarrow> if n < 32 then ZeroRun (Suc n) # ts else ZeroRun 1 # ZeroRun n # ts
         | ts \<Rightarrow> ZeroRun 1 # ts)
      else Delta d # contract ds)"

function varint :: "int \<Rightarrow> string" where
  "varint n =
     (if n < 32 then [char_of (0x40 + n)]
      else char_of (0x20 + n mod 32) # varint (n div 32))"
  by pat_completeness auto
termination
  by (relation "measure nat") auto

declare varint.simps [simp del]

fun emit :: "token \<Rightarrow> string" where
  "emit (Delta d) = varint d"
| "emit (ZeroRun n) = [char_of (0x60 + (n - 1))]"

definition encode :: "int list \<Rightarrow> string" where
  "encode s = concat (map emit (contract (map (\<lambda>d. d - 1) (deltas 0 s))))"

section \<open>Notions the properties are stated with\<close>

text \<open>Strictly ascending sequences, and the ids a graph can hold (non-negative ints).\<close>

definition ascending :: "int list \<Rightarrow> bool" where
  "ascending xs = sorted_wrt (<) xs"


definition positive_ints :: "int list \<Rightarrow> bool" where
  "positive_ints xs = list_all (\<lambda>x. 0 < x \<and> x \<le> INT_MAX) xs"

text \<open>
  What a token list stands for: the adjusted deltas it expands to, and the ascending
  sequence the deltas add up to from \<open>prev\<close>. A token the encoding can emit holds a
  non-negative delta or a run of 1 to 32.
\<close>

fun expand :: "token \<Rightarrow> int list" where
  "expand (Delta d) = [d]"
| "expand (ZeroRun n) = replicate n 0"

fun undelta :: "int \<Rightarrow> int list \<Rightarrow> int list" where
  "undelta prev [] = []"
| "undelta prev (d # ds) = (prev + d + 1) # undelta (prev + d + 1) ds"

fun valid_token :: "token \<Rightarrow> bool" where
  "valid_token (Delta d) = (0 \<le> d)"
| "valid_token (ZeroRun n) = (1 \<le> n \<and> n \<le> 32)"

text \<open>
  A string is well formed for the decoder when no varint is cut off by the end of the
  string: \<open>scan\<close> walks the bytes as \<open>decode\<close> groups them (\<open>inside\<close> holds after a
  varint byte with the continuation bit 0x20), and must not end inside a varint.
\<close>

fun scan :: "bool \<Rightarrow> string \<Rightarrow> bool" where
  "scan inside [] = (\<not> inside)"
| "scan inside (c # cs) =
     (if \<not> inside \<and> (of_char c :: nat) \<ge> 0x60 then scan False cs
      else scan ((of_char c :: nat) AND 0x20 \<noteq> 0) cs)"

definition varints_complete :: "string \<Rightarrow> bool" where
  "varints_complete enc = scan False (c_str enc)"

text \<open>
  The prefix of a word, the prefix groups as a function of the words added (find the
  group or append a new one), and the lines stored in an array from index \<open>i\<close> on.
\<close>

definition prefix3 :: "string \<Rightarrow> string" where
  "prefix3 w = map tolower (take 3 w)"

definition long_enough :: "string \<Rightarrow> bool" where
  "long_enough w = (3 \<le> strlen w)"

fun add_word :: "(string \<times> intvec) list \<Rightarrow> string \<Rightarrow> int \<Rightarrow> (string \<times> intvec) list" where
  "add_word [] p i = [(p, [i])]"
| "add_word ((q, ws) # ps) p i = (if q = p then (q, ws @ [i]) # ps else (q, ws) # add_word ps p i)"

fun add_words :: "int \<Rightarrow> string list \<Rightarrow> (string \<times> intvec) list \<Rightarrow> (string \<times> intvec) list" where
  "add_words i [] ps = ps"
| "add_words i (w # ws) ps = add_words (i + 1) ws (add_word ps (prefix3 w) i)"

fun store_lines :: "int \<Rightarrow> string list \<Rightarrow> string option list \<Rightarrow> string option list" where
  "store_lines i [] arr = arr"
| "store_lines i (l # ls) arr = store_lines (i + 1) ls (arr[nat i := Some l])"

text \<open>
  The parts of a corpus file: the lines of the words 1..n_words-1, the n_words follower
  lines after them, the number of distinct prefixes of the words, and the structure the
  format asks for.
\<close>

definition word_lines :: "corpus_file \<Rightarrow> string list" where
  "word_lines f = (case header f of None \<Rightarrow> [] | Some n \<Rightarrow> take (nat (n - 1)) (body f))"

definition follower_lines :: "corpus_file \<Rightarrow> string list" where
  "follower_lines f =
     (case header f of None \<Rightarrow> [] | Some n \<Rightarrow> take (nat n) (drop (nat (n - 1)) (body f)))"

definition n_distinct_prefixes :: "corpus_file \<Rightarrow> nat" where
  "n_distinct_prefixes f = card (set (map prefix3 (word_lines f)))"

definition well_formed :: "corpus_file \<Rightarrow> bool" where
  "well_formed f =
     (case header f of
        None \<Rightarrow> False
      | Some n \<Rightarrow> nat (n - 1) + nat n \<le> length (body f) \<and> list_all long_enough (word_lines f))"

text \<open>
  An example corpus: \<open>m\<close> three-letter words with \<open>m\<close> distinct prefixes (for \<open>m\<close> up
  to 4096), followed by the given follower lines.
\<close>

definition example_word :: "nat \<Rightarrow> string" where
  "example_word k =
     [char_of (97 + k div 256), char_of (97 + k div 16 mod 16), char_of (97 + k mod 16)]"

definition example_corpus :: "nat \<Rightarrow> string list \<Rightarrow> corpus_file" where
  "example_corpus m fls = \<lparr>header = Some (int m + 1), body = map example_word [0..<m] @ fls\<rparr>"




text \<open>
  The example corpus with 1024 words where word 1 has the follower 2 ("A" encodes the
  sequence 2) and no other word has a follower, and the graph built from it.
\<close>

definition example_followers :: "string list" where
  "example_followers = [[], ''A''] @ replicate 1023 []"

definition example_graph :: wordgraph where
  "example_graph =
     \<lparr>n_words = 1025,
      words = None # map (\<lambda>k. Some (example_word k)) [0..<1024],
      followers_compressed = map Some example_followers,
      prefixes = map (\<lambda>k. (example_word k, [int k + 1])) [0..<1024]\<rparr>"

text \<open>
  The classic edit distance of the spec's section 4.3, as its textbook recursion:
  deleting, inserting or substituting a character costs 1, equal characters cost
  nothing. \<open>edits n xs ys\<close> says that \<open>n\<close> such unit edits turn \<open>xs\<close> into \<open>ys\<close>;
  \<open>lev xs ys\<close> is the least such \<open>n\<close> (lemmas \<open>lev_edits\<close> and \<open>edits_lev\<close>).
\<close>

fun lev :: "'a list \<Rightarrow> 'a list \<Rightarrow> nat" where
  "lev [] ys = length ys"
| "lev (x # xs) [] = Suc (length xs)"
| "lev (x # xs) (y # ys) =
     min (lev xs (y # ys) + 1) (min (lev (x # xs) ys + 1) (lev xs ys + (if x = y then 0 else 1)))"

inductive edits :: "nat \<Rightarrow> 'a list \<Rightarrow> 'a list \<Rightarrow> bool" where
  edits_Nil: "edits 0 [] []"
| edits_Keep: "edits n xs ys \<Longrightarrow> edits n (x # xs) (x # ys)"
| edits_Subst: "edits n xs ys \<Longrightarrow> edits (Suc n) (x # xs) (y # ys)"
| edits_Delete: "edits n xs ys \<Longrightarrow> edits (Suc n) (x # xs) ys"
| edits_Insert: "edits n xs ys \<Longrightarrow> edits (Suc n) xs (y # ys)"

text \<open>
  The text of word \<open>k\<close> as a C string, and the dictionary of a graph being in place:
  \<open>words\<close> has an entry for every id below \<open>n_words\<close>, and none of the ids
  1..n_words-1 is NULL.
\<close>

definition word_text :: "wordgraph \<Rightarrow> int \<Rightarrow> string" where
  "word_text g k = (case word_at g k of Inr w \<Rightarrow> c_str w | Inl e \<Rightarrow> [])"

definition words_ok :: "wordgraph \<Rightarrow> bool" where
  "words_ok g =
     (n_words g \<le> int (length (words g)) \<and>
      list_all (\<lambda>w. w \<noteq> None) (drop 1 (take (nat (n_words g)) (words g))))"


section \<open>Ascending-sequence intersection\<close>












section \<open>Bytes and bits\<close>

lemma and31_nat: "(x::nat) AND 31 = x mod 32"
proof -
  have "x AND 31 = x AND mask 5" by (simp add: mask_eq_exp_minus_1)
  also have "\<dots> = take_bit 5 x" by (simp add: take_bit_eq_mask)
  also have "\<dots> = x mod 32" by (simp add: take_bit_eq_mod)
  finally show ?thesis .
qed

lemma and31_int: "(x::int) AND 31 = x mod 32"
proof -
  have "x AND 31 = x AND mask 5" by (simp add: mask_eq_exp_minus_1)
  also have "\<dots> = take_bit 5 x" by (simp add: take_bit_eq_mask)
  also have "\<dots> = x mod 32" by (simp add: take_bit_eq_mod)
  finally show ?thesis .
qed

lemma and32_nat: "((x::nat) AND 32 \<noteq> 0) = odd (x div 32)"
proof -
  have "x AND 32 = x AND 2 ^ 5" by simp
  then show ?thesis
    by (simp only: and_exp_eq_0_iff_not_bit bit_iff_odd) simp
qed

lemma or_push_bit_add:
  assumes "0 \<le> delta" "delta < 2 ^ n"
  shows "delta OR push_bit n (d::int) = delta + d * 2 ^ n"
proof -
  have t: "take_bit n delta = delta"
    using assms by (simp add: take_bit_int_eq_self)
  have "delta + push_bit n d = delta OR push_bit n d"
  proof (rule disjunctive_add)
    fix m
    have "bit delta m \<Longrightarrow> m < n"
      using t by (metis bit_take_bit_iff)
    then show "\<not> bit delta m \<or> \<not> bit (push_bit n d) m"
      by (auto simp: bit_push_bit_iff)
  qed
  then show ?thesis by (simp add: push_bit_eq_mult)
qed

lemma of_char_char_of_int:
  "0 \<le> n \<Longrightarrow> n < 256 \<Longrightarrow> (of_char (char_of (n::int)) :: int) = n"
  by simp

lemma of_char_char_of_nat:
  "0 \<le> n \<Longrightarrow> n < 256 \<Longrightarrow> (of_char (char_of (n::int)) :: nat) = nat n"
proof -
  assume a: "0 \<le> n" "n < 256"
  have "int (of_char (char_of n) :: nat) = (of_char (char_of n) :: int)"
    by (rule of_nat_of_char)
  then show ?thesis using a by simp
qed

lemma char_of_not_NUL: "0 < n \<Longrightarrow> n < 256 \<Longrightarrow> char_of (n::int) \<noteq> CHR 0x00"
proof
  assume a: "0 < n" "n < 256" and "char_of n = CHR 0x00"
  then have "(of_char (char_of n) :: int) = 0" by simp
  with a show False by simp
qed

lemma c_str_id: "CHR 0x00 \<notin> set enc \<Longrightarrow> c_str enc = enc"
  by (auto simp: c_str_def takeWhile_eq_all_conv)

lemma str_at_text:
  "CHR 0x00 \<notin> set enc \<Longrightarrow>
   str_at enc i = (if i < length enc then Inr (enc ! i)
                   else if i = length enc then Inr (CHR 0x00) else Inl ReadPastTerminator)"
  by (simp add: str_at_def strlen_def c_str_id)


lemma int_shl_digit:
  assumes "0 \<le> d" "d * 32 ^ k \<le> INT_MAX" "k \<le> 6"
  shows "int_shl d (5 * k) = Inr (d * 32 ^ k)"
proof -
  have "(2::int) ^ (5 * k) = 32 ^ k" by (simp add: power_mult)
  then have "push_bit (5 * k) d = d * 32 ^ k" by (simp add: push_bit_eq_mult)
  moreover have "0 \<le> d * (32::int) ^ k" using assms(1) by simp
  then have "- 2147483648 \<le> d * (32::int) ^ k" by linarith
  ultimately show ?thesis
    using assms by (simp add: int_shl_def is_int_def INT_MIN_def)
qed

lemma digits_bound:
  assumes "1 \<le> m" "m * 32 ^ k \<le> INT_MAX"
  shows "k \<le> 6"
proof (rule ccontr)
  assume "\<not> k \<le> 6"
  then have "7 \<le> k" by simp
  then have a: "(32::int) ^ 7 \<le> 32 ^ k" by (intro power_increasing) simp_all
  have b: "1 * (32::int) ^ k \<le> m * 32 ^ k"
    using assms(1) by (intro mult_right_mono) simp_all
  have "(32::int) ^ 7 \<le> INT_MAX" using a b assms(2) by linarith
  then show False by (simp add: INT_MAX_def)
qed

lemma mod_add_64: "(64 + n) mod 32 = (n::int) mod 32"
proof -
  have "64 + n = n + 32 * 2" by simp
  then have "(64 + n) mod 32 = (n + 32 * 2) mod 32" by (rule arg_cong)
  also have "\<dots> = n mod 32" by (simp only: mod_mult_self2)
  finally show ?thesis .
qed

lemma mod_add_32: "(32 + n mod 32) mod 32 = (n::int) mod 32"
proof -
  have "32 + n mod 32 = n mod 32 + 32 * 1" by simp
  then have "(32 + n mod 32) mod 32 = (n mod 32 + 32 * 1) mod 32" by (rule arg_cong)
  also have "\<dots> = n mod 32 mod 32" by (simp only: mod_mult_self2)
  finally show ?thesis by simp
qed

lemma digit_split: "(r::int) + 32 * q = n \<Longrightarrow> r * p + q * (32 * p) = n * p"
  by (auto simp: algebra_simps)

lemma varint_loop_varint:
  assumes "CHR 0x00 \<notin> set enc"
  shows "enc = pre @ varint m @ rest \<Longrightarrow> length pre = i + k \<Longrightarrow> 0 \<le> m \<Longrightarrow>
         0 \<le> delta \<Longrightarrow> delta < 32 ^ k \<Longrightarrow> delta + m * 32 ^ k \<le> INT_MAX \<Longrightarrow>
         k = 0 \<or> 1 \<le> m \<Longrightarrow>
         varint_loop enc i delta k = Inr (delta + m * 32 ^ k, k + length (varint m))"
proof (induction m arbitrary: pre delta k rule: varint.induct)
  case (1 n)
  have pow: "(2::int) ^ (5 * k) = 32 ^ k" by (simp add: power_mult)
  have npow: "0 \<le> n * 32 ^ k" using "1.prems"(3) by simp
  have k6: "k \<le> 6"
  proof (cases "k = 0")
    case False
    with "1.prems" have "1 \<le> n" by simp
    moreover have "n * 32 ^ k \<le> INT_MAX" using "1.prems"(4,6) by simp
    ultimately show ?thesis by (rule digits_bound)
  qed simp
  show ?case
  proof (cases "n < 32")
    case True
    let ?c = "char_of (0x40 + n)"
    have v: "varint n = [?c]" using True by (subst varint.simps) simp
    have at: "str_at enc (i + k) = Inr ?c"
      using "1.prems"(1,2) assms by (simp add: str_at_text v nth_append)
    have ci: "(of_char ?c :: int) = 64 + n" using True "1.prems"(3) by simp
    have cn: "(of_char ?c :: nat) = nat (64 + n)"
      using True "1.prems"(3) by (intro of_char_char_of_nat) simp_all
    have lo: "(of_char ?c :: int) AND 0x1f = n"
    proof -
      have "(64 + n) mod 32 = n mod 32" by (rule mod_add_64)
      then show ?thesis using True "1.prems"(3) by (simp only: ci and31_int) simp
    qed
    have cont: "\<not> ((of_char ?c :: nat) AND 0x20 \<noteq> 0)"
    proof -
      have "nat (64 + n) div 32 = 2" using True "1.prems"(3) by simp
      then show ?thesis by (simp only: cn and32_nat) simp
    qed
    have "n * 32 ^ k \<le> INT_MAX"
      using "1.prems"(4,6) by linarith
    then have shl: "int_shl n (5 * k) = Inr (n * 32 ^ k)"
      using "1.prems"(3) k6 by (intro int_shl_digit) simp_all
    have "delta OR n * 32 ^ k = delta + n * 32 ^ k"
      using or_push_bit_add [of delta "5 * k" n] "1.prems"(4,5) by (simp add: pow push_bit_eq_mult)
    then show ?thesis
      using at lo cont shl by (subst varint_loop.simps) (simp add: v)
  next
    case False
    let ?c = "char_of (0x20 + n mod 32)"
    have v: "varint n = ?c # varint (n div 32)" using False by (subst varint.simps) simp
    have at: "str_at enc (i + k) = Inr ?c"
      using "1.prems"(1,2) assms by (simp add: str_at_text v nth_append)
    have r: "0 \<le> n mod 32" "n mod 32 < 32" by simp_all
    have ci: "(of_char ?c :: int) = 32 + n mod 32" using r by simp
    have cn: "(of_char ?c :: nat) = nat (32 + n mod 32)"
      using r by (intro of_char_char_of_nat) simp_all
    have lo: "(of_char ?c :: int) AND 0x1f = n mod 32"
    proof -
      have "(32 + n mod 32) mod 32 = n mod 32" by (rule mod_add_32)
      then show ?thesis by (simp only: ci and31_int)
    qed
    have cont: "(of_char ?c :: nat) AND 0x20 \<noteq> 0"
    proof -
      have "nat (32 + n mod 32) div 32 = 1" using r by simp
      then show ?thesis by (simp only: cn and32_nat) simp
    qed
    have le: "(n mod 32) * 32 ^ k \<le> n * 32 ^ k"
      using "1.prems"(3) by (intro mult_right_mono) (simp_all add: zmod_le_nonneg_dividend)
    have "(n mod 32) * 32 ^ k \<le> INT_MAX"
      using le "1.prems"(4,6) by linarith
    then have shl: "int_shl (n mod 32) (5 * k) = Inr ((n mod 32) * 32 ^ k)"
      using k6 by (intro int_shl_digit) simp_all
    have orr: "delta OR (n mod 32) * 32 ^ k = delta + (n mod 32) * 32 ^ k"
      using or_push_bit_add [of delta "5 * k" "n mod 32"] "1.prems"(4,5)
      by (simp add: pow push_bit_eq_mult)
    have "(n mod 32) * 32 ^ k + (n div 32) * (32 * 32 ^ k) = n * 32 ^ k"
      by (rule digit_split) simp
    then have eq: "delta + (n mod 32) * 32 ^ k + (n div 32) * 32 ^ Suc k = delta + n * 32 ^ k"
      by simp
    have lt: "delta + (n mod 32) * 32 ^ k < 32 ^ Suc k"
    proof -
      have "(n mod 32) * 32 ^ k \<le> 31 * 32 ^ k"
        using r by (intro mult_right_mono) simp_all
      then have "delta + (n mod 32) * 32 ^ k < 32 * 32 ^ k"
        using "1.prems"(5) by linarith
      then show ?thesis by simp
    qed
    have IH: "varint_loop enc i (delta + (n mod 32) * 32 ^ k) (Suc k) =
          Inr (delta + (n mod 32) * 32 ^ k + (n div 32) * 32 ^ Suc k,
               Suc k + length (varint (n div 32)))"
    proof (rule "1.IH" [OF False, of "pre @ [?c]"])
      show "enc = (pre @ [?c]) @ varint (n div 32) @ rest"
        using "1.prems"(1) by (simp add: v)
      show "length (pre @ [?c]) = i + Suc k" using "1.prems"(2) by simp
      show "0 \<le> n div 32" using "1.prems"(3) by simp
      show "0 \<le> delta + n mod 32 * 32 ^ k" using "1.prems"(4) r by simp
      show "delta + n mod 32 * 32 ^ k < 32 ^ Suc k" by (rule lt)
      show "delta + n mod 32 * 32 ^ k + n div 32 * 32 ^ Suc k \<le> INT_MAX"
        using "1.prems"(6) by (simp only: eq)
      show "Suc k = 0 \<or> 1 \<le> n div 32" using False by simp
    qed
    show ?thesis
      using at lo cont shl orr IH eq
      by (subst varint_loop.simps) (simp add: v)
  qed
qed

section \<open>Decoding an encoded sequence\<close>

lemma undelta_append: "undelta prev (xs @ ys) = undelta prev xs @ undelta (prev + sum_list xs + int (length xs)) ys"
  by (induction xs arbitrary: prev) (simp_all add: algebra_simps)

lemma undelta_zeros: "undelta prev (replicate n 0) = map (\<lambda>j. prev + 1 + int j) [0..<n]"
proof (induction n arbitrary: prev)
  case 0
  show ?case by simp
next
  case (Suc n)
  show ?case
    using Suc [of "prev + 1"] by (simp add: map_upt_Suc algebra_simps del: upt_Suc)
qed

text \<open>The turns of the loop that only count a pending run down.\<close>

lemma decode_loop_run:
  assumes "i \<le> strlen enc"
  shows "0 \<le> prev \<Longrightarrow> prev + int zr \<le> INT_MAX \<Longrightarrow>
         decode_loop enc i prev zr dec =
         decode_loop enc i (prev + int zr) 0 (dec @ undelta prev (replicate zr 0))"
proof (induction zr arbitrary: prev dec)
  case 0
  show ?case by simp
next
  case (Suc zr)
  obtain c where at: "str_at enc i = Inr c"
    using assms by (cases "i < strlen enc") (auto simp: str_at_def)
  have tok: "decode_token enc i (Suc zr) = Inr (0, 0, zr)"
    by (simp add: decode_token_def)
  have add: "int_add prev 1 = Inr (prev + 1)"
    using Suc.prems by (simp add: int_add_def is_int_def INT_MIN_def INT_MAX_def)
  have "decode_loop enc i prev (Suc zr) dec = decode_loop enc i (prev + 1) zr (dec @ [prev + 1])"
    using at tok add
    by (subst decode_loop.simps) (simp add: int_add_def is_int_def INT_MIN_def INT_MAX_def intvec_append_def)
  also have "\<dots> = decode_loop enc i (prev + 1 + int zr) 0 ((dec @ [prev + 1]) @ undelta (prev + 1) (replicate zr 0))"
    using Suc.prems by (intro Suc.IH) simp_all
  finally show ?case by (simp add: algebra_simps)
qed


lemma varint_hd:
  assumes "0 \<le> d"
  shows "\<exists>c cs. varint d = c # cs \<and> (of_char c :: nat) < 0x60 \<and> c \<noteq> CHR 0x00"
proof (cases "d < 32")
  case True
  have "(of_char (char_of (0x40 + d)) :: nat) = nat (0x40 + d)"
    using True assms by (intro of_char_char_of_nat) simp_all
  moreover have "char_of (0x40 + d) \<noteq> CHR 0x00"
    using True assms by (intro char_of_not_NUL) simp_all
  ultimately show ?thesis using True assms by (subst varint.simps) simp
next
  case False
  have r: "0 \<le> d mod 32" "d mod 32 < 32" by simp_all
  have "(of_char (char_of (0x20 + d mod 32)) :: nat) = nat (0x20 + d mod 32)"
    using r by (intro of_char_char_of_nat) simp_all
  moreover have "char_of (0x20 + d mod 32) \<noteq> CHR 0x00"
    using r by (intro char_of_not_NUL) simp_all
  ultimately show ?thesis using False r by (subst varint.simps) simp
qed

lemma sum_list_zeros: "sum_list (replicate n (0::int)) = 0"
  by (induction n) simp_all

lemma decode_loop_tokens:
  assumes nonul: "CHR 0x00 \<notin> set enc"
  shows "enc = pre @ concat (map emit ts) \<Longrightarrow> list_all valid_token ts \<Longrightarrow> 0 \<le> prev \<Longrightarrow>
         \<forall>x\<in>set (undelta prev (concat (map expand ts))). x \<le> INT_MAX \<Longrightarrow>
         decode_loop enc (length pre) prev 0 dec =
         Inr (dec @ undelta prev (concat (map expand ts)))"
proof (induction ts arbitrary: pre prev dec)
  case Nil
  then have "str_at enc (length pre) = Inr (CHR 0x00)"
    using nonul by (simp add: str_at_text)
  then show ?case by (subst decode_loop.simps) simp
next
  case (Cons t ts)
  show ?case
  proof (cases t)
    case (Delta d)
    have d0: "0 \<le> d" using Cons.prems(2) Delta by simp
    have top: "prev + d + 1 \<le> INT_MAX" using Cons.prems(4) Delta by simp
    obtain c cs where v: "varint d = c # cs" and c60: "(of_char c :: nat) < 0x60"
      and cn: "c \<noteq> CHR 0x00"
      using varint_hd [OF d0] by blast
    have enc: "enc = pre @ varint d @ concat (map emit ts)"
      using Cons.prems(1) Delta by simp
    have at: "str_at enc (length pre) = Inr c"
      using nonul enc by (simp add: str_at_text v)
    have "varint_loop enc (length pre) 0 0 = Inr (0 + d * 32 ^ 0, 0 + length (varint d))"
      using enc d0 top Cons.prems(3) by (intro varint_loop_varint [OF nonul]) simp_all
    then have tok: "decode_token enc (length pre) 0 = Inr (d, length (varint d), 0)"
      using at c60 by (simp add: decode_token_def)
    have a1: "int_add d 1 = Inr (d + 1)"
      using d0 top Cons.prems(3) by (simp add: int_add_def is_int_def INT_MIN_def)
    have a2: "int_add prev (d + 1) = Inr (prev + d + 1)"
      using d0 top Cons.prems(3) by (simp add: int_add_def is_int_def INT_MIN_def)
    have IH: "decode_loop enc (length (pre @ varint d)) (prev + d + 1) 0 (dec @ [prev + d + 1]) =
          Inr ((dec @ [prev + d + 1]) @ undelta (prev + d + 1) (concat (map expand ts)))"
      using enc Cons.prems(2,3,4) d0 Delta by (intro Cons.IH) simp_all
    show ?thesis
      using at cn tok a1 a2 IH
      by (subst decode_loop.simps) (simp add: Delta intvec_append_def)
  next
    case (ZeroRun n)
    have n: "1 \<le> n" "n \<le> 32" using Cons.prems(2) ZeroRun by simp_all
    let ?c = "char_of (0x60 + (n - 1)) :: char"
    let ?rest = "concat (map expand ts)"
    have cv: "(of_char ?c :: nat) = 0x60 + (n - 1)" using n by simp
    have cn: "?c \<noteq> CHR 0x00"
    proof
      assume "?c = CHR 0x00"
      then have "(of_char ?c :: nat) = 0" by simp
      with cv show False by simp
    qed
    have enc: "enc = pre @ ?c # concat (map emit ts)"
      using Cons.prems(1) ZeroRun by simp
    have at: "str_at enc (length pre) = Inr ?c"
      using nonul enc by (simp add: str_at_text)
    have low: "(of_char ?c :: nat) AND 0x1f = n - 1"
    proof -
      have "96 + (n - 1) = (n - 1) + 32 * 3" by simp
      then have "(96 + (n - 1)) mod 32 = ((n - 1) + 32 * 3) mod 32" by (rule arg_cong)
      also have "\<dots> = (n - 1) mod 32" by (simp only: mod_mult_self2)
      also have "\<dots> = n - 1" using n by simp
      finally show ?thesis by (simp only: cv and31_nat)
    qed
    have tok: "decode_token enc (length pre) 0 = Inr (0, 1, n - 1)"
      using at low cv by (simp add: decode_token_def)
    have out: "undelta prev (expand t @ concat (map expand ts)) =
               (prev + 1) # undelta (prev + 1) (replicate (n - 1) 0) @ undelta (prev + int n) ?rest"
    proof -
      have "replicate n (0::int) = 0 # replicate (n - 1) 0"
        using n by (cases n) simp_all
      then have "undelta prev (replicate n 0) = (prev + 1) # undelta (prev + 1) (replicate (n - 1) 0)"
        by simp
      then show ?thesis
        by (simp add: ZeroRun undelta_append sum_list_zeros)
    qed
    have top: "prev + int n \<le> INT_MAX"
    proof -
      have "prev + int n \<in> set ((prev + 1) # undelta (prev + 1) (replicate (n - 1) 0))"
      proof (cases "n - 1")
        case 0
        then show ?thesis using n by simp
      next
        case (Suc m)
        have "prev + int n \<in> (\<lambda>j. prev + 1 + 1 + int j) ` set [0..<n - 1]"
          using Suc by (intro image_eqI [where x = m]) simp_all
        then have "prev + int n \<in> set (undelta (prev + 1) (replicate (n - 1) 0))"
          by (simp only: undelta_zeros set_map)
        then show ?thesis by simp
      qed
      then have "prev + int n \<in> set (undelta prev (expand t @ concat (map expand ts)))"
        by (simp only: out set_append set_simps) blast
      then show ?thesis using Cons.prems(4) by simp
    qed
    have a1: "int_add 0 1 = Inr 1"
      by (simp add: int_add_def is_int_def INT_MIN_def INT_MAX_def)
    have a2: "int_add prev 1 = Inr (prev + 1)"
      using top n Cons.prems(3) by (simp add: int_add_def is_int_def INT_MIN_def)
    have len: "length pre + 1 \<le> strlen enc"
      using nonul enc by (simp add: strlen_def c_str_id)
    have run: "decode_loop enc (length pre + 1) (prev + 1) (n - 1) (dec @ [prev + 1]) =
          decode_loop enc (length pre + 1) (prev + 1 + int (n - 1)) 0
            ((dec @ [prev + 1]) @ undelta (prev + 1) (replicate (n - 1) 0))"
      using top n Cons.prems(3) by (intro decode_loop_run [OF len]) simp_all
    have pn: "prev + 1 + int (n - 1) = prev + int n" using n by simp
    have IH: "decode_loop enc (length pre + 1) (prev + int n) 0
            ((dec @ [prev + 1]) @ undelta (prev + 1) (replicate (n - 1) 0)) =
          Inr (((dec @ [prev + 1]) @ undelta (prev + 1) (replicate (n - 1) 0)) @
               undelta (prev + int n) ?rest)"
      using enc Cons.prems(2,3,4) Cons.IH [of "pre @ [?c]" "prev + int n"] by (simp add: out)
    have "decode_loop enc (length pre) prev 0 dec =
          decode_loop enc (length pre + 1) (prev + 1) (n - 1) (dec @ [prev + 1])"
      using at cn tok a1 a2 by (subst decode_loop.simps) (simp add: intvec_append_def)
    also note run
    also have "decode_loop enc (length pre + 1) (prev + 1 + int (n - 1)) 0
            ((dec @ [prev + 1]) @ undelta (prev + 1) (replicate (n - 1) 0)) =
          decode_loop enc (length pre + 1) (prev + int n) 0
            ((dec @ [prev + 1]) @ undelta (prev + 1) (replicate (n - 1) 0))"
      by (simp only: pn)
    also note IH
    finally show ?thesis
      by (simp add: out)
  qed
qed

lemma contract_expand: "concat (map expand (contract ds)) = ds"
proof (induction ds)
  case Nil
  show ?case by simp
next
  case (Cons d ds)
  show ?case
  proof (cases "d = 0")
    case False
    then show ?thesis using Cons by simp
  next
    case True
    show ?thesis
    proof (cases "contract ds")
      case Nil
      then show ?thesis using Cons True by simp
    next
      case (Cons t ts)
      then show ?thesis using Cons.IH True
        by (cases t) (auto simp: replicate_append_same split: if_splits)
    qed
  qed
qed

lemma contract_valid: "\<forall>d\<in>set ds. 0 \<le> d \<Longrightarrow> list_all valid_token (contract ds)"
proof (induction ds)
  case Nil
  show ?case by simp
next
  case (Cons d ds)
  then have IH: "list_all valid_token (contract ds)" by simp
  show ?case
  proof (cases "contract ds")
    case Nil
    then show ?thesis using Cons.prems by simp
  next
    case (Cons t ts)
    then show ?thesis using IH Cons.prems
      by (cases t) auto
  qed
qed

lemma varint_no_NUL: "0 \<le> d \<Longrightarrow> CHR 0x00 \<notin> set (varint d)"
proof (induction d rule: varint.induct)
  case (1 n)
  show ?case
  proof (cases "n < 32")
    case True
    have "char_of (0x40 + n) \<noteq> CHR 0x00"
      using True "1.prems" by (intro char_of_not_NUL) simp_all
    then show ?thesis using True by (subst varint.simps) simp
  next
    case False
    have "char_of (0x20 + n mod 32) \<noteq> CHR 0x00"
      by (intro char_of_not_NUL) simp_all
    moreover have "CHR 0x00 \<notin> set (varint (n div 32))"
      using False "1.prems" by (intro "1.IH") simp_all
    ultimately show ?thesis using False by (subst varint.simps) simp
  qed
qed

lemma emit_no_NUL: "valid_token t \<Longrightarrow> CHR 0x00 \<notin> set (emit t)"
proof (cases t)
  case (Delta d)
  assume "valid_token t"
  then show ?thesis using Delta by (simp add: varint_no_NUL)
next
  case (ZeroRun n)
  assume "valid_token t"
  then have n: "1 \<le> n" "n \<le> 32" using ZeroRun by simp_all
  have "(char_of (0x60 + (n - 1)) :: char) \<noteq> CHR 0x00"
  proof
    assume "(char_of (0x60 + (n - 1)) :: char) = CHR 0x00"
    then have "(of_char (char_of (0x60 + (n - 1)) :: char) :: nat) = 0" by simp
    then show False using n by simp
  qed
  then show ?thesis using ZeroRun by simp
qed

lemma tokens_no_NUL: "list_all valid_token ts \<Longrightarrow> CHR 0x00 \<notin> set (concat (map emit ts))"
  by (induction ts) (auto dest: emit_no_NUL)

lemma undelta_deltas: "undelta prev (map (\<lambda>d. d - 1) (deltas prev s)) = s"
  by (induction s arbitrary: prev) simp_all

lemma deltas_nonneg:
  "ascending s \<Longrightarrow> \<forall>x\<in>set s. prev < x \<Longrightarrow> \<forall>d\<in>set (map (\<lambda>d. d - 1) (deltas prev s)). 0 \<le> d"
proof (induction s arbitrary: prev)
  case Nil
  show ?case by simp
next
  case (Cons x xs)
  have "\<forall>d\<in>set (map (\<lambda>d. d - 1) (deltas x xs)). 0 \<le> d"
    using Cons.prems by (intro Cons.IH) (auto simp: ascending_def)
  then show ?case using Cons.prems by simp
qed

text \<open>
  Claim C1. For every strictly ascending sequence \<open>s\<close> of positive ints,
  decoding the encoding of \<open>s\<close> (differences, minus one, zero runs contracted,
  base-32 varints low-order first with continuation bit 0x20, run tokens from 0x60)
  returns exactly \<open>s\<close>.
\<close>

theorem decode_encode:
  assumes "ascending s" "positive_ints s"
  shows "decode (encode s) = Inr s"
proof -
  let ?ds = "map (\<lambda>d. d - 1) (deltas 0 s)"
  let ?ts = "contract ?ds"
  have pos: "\<forall>x\<in>set s. 0 < x" and top: "\<forall>x\<in>set s. x \<le> INT_MAX"
    using assms(2) by (auto simp: positive_ints_def list_all_iff)
  have valid: "list_all valid_token ?ts"
    using deltas_nonneg [OF assms(1) pos] by (rule contract_valid)
  have nonul: "CHR 0x00 \<notin> set (encode s)"
    unfolding encode_def using valid by (rule tokens_no_NUL)
  have out: "undelta 0 (concat (map expand ?ts)) = s"
    by (simp only: contract_expand undelta_deltas)
  have "decode_loop (encode s) (length ([] :: string)) 0 0 [] =
        Inr ([] @ undelta 0 (concat (map expand ?ts)))"
    using valid top by (intro decode_loop_tokens [OF nonul]) (simp_all add: encode_def out)
  then show ?thesis
    by (simp add: decode_def intvec_alloc_def out)
qed

theorem decode_encode_witness:
  "ascending [1, 2, 3, 5, 80] \<and> positive_ints [1, 2, 3, 5, 80] \<and>
   encode [1, 2, 3, 5, 80] = ''bA*B'' \<and> decode (encode [1, 2, 3, 5, 80]) = Inr [1, 2, 3, 5, 80]"
proof -
  have h: "ascending [1, 2, 3, 5, 80]" "positive_ints [1, 2, 3, 5, 80]"
    by (simp_all add: ascending_def positive_ints_def INT_MAX_def)
  have "encode [1, 2, 3, 5, 80] = ''bA*B''"
    by code_simp
  with decode_encode [OF h] h show ?thesis by simp
qed

text \<open>
  Claim C9. The sequence 100, 101, ..., 131 is encoded as the varint of the adjusted
  delta 99 followed by one run token for the 31 zero deltas, three bytes in all.
  Decoding them returns exactly the 32 values; the run token is read once, at index 2,
  and leaves 30 pending values that are produced without reading another token.
\<close>

theorem decode_run_100_131:
  "contract (map (\<lambda>d. d - 1) (deltas 0 (map int [100..<132]))) = [Delta 99, ZeroRun 31] \<and>
   encode (map int [100..<132]) = [CHR 0x23, CHR 0x43, CHR 0x7E] \<and>
   decode [CHR 0x23, CHR 0x43, CHR 0x7E] = Inr (map int [100..<132]) \<and>
   decode_token [CHR 0x23, CHR 0x43, CHR 0x7E] 2 0 = Inr (0, 1, 30) \<and>
   length (map int [100..<132]) = 32"
  by code_simp

section \<open>The reads of decode\<close>

lemma c_str_nth: "i < strlen enc \<Longrightarrow> c_str enc ! i = enc ! i"
  by (simp add: strlen_def c_str_def takeWhile_nth)

lemma c_str_not_NUL: "i < strlen enc \<Longrightarrow> enc ! i \<noteq> CHR 0x00"
proof -
  assume a: "i < strlen enc"
  then have "c_str enc ! i \<in> set (c_str enc)" by (simp add: strlen_def)
  then have "c_str enc ! i \<noteq> CHR 0x00" by (auto simp: c_str_def dest: set_takeWhileD)
  then show ?thesis using a by (simp add: c_str_nth)
qed

lemma c_str_drop: "i < strlen enc \<Longrightarrow> drop i (c_str enc) = enc ! i # drop (Suc i) (c_str enc)"
  using Cons_nth_drop_Suc [of i "c_str enc"] by (simp add: strlen_def c_str_nth)

lemma varint_loop_in_bounds:
  "i + k < strlen enc \<Longrightarrow> scan True (drop (i + k) (c_str enc)) \<Longrightarrow>
   varint_loop enc i delta k \<noteq> Inl ReadPastTerminator \<and>
   (\<forall>d k'. varint_loop enc i delta k = Inr (d, k') \<longrightarrow>
      i + k' \<le> strlen enc \<and> scan False (drop (i + k') (c_str enc)))"
proof (induction enc i delta k rule: varint_loop.induct)
  case (1 enc i delta k)
  let ?c = "enc ! (i + k)"
  have at: "str_at enc (i + k) = Inr ?c"
    using "1.prems"(1) by (simp add: str_at_def)
  have sc: "scan ((of_char ?c :: nat) AND 0x20 \<noteq> 0) (drop (Suc (i + k)) (c_str enc))"
    using "1.prems" by (simp add: c_str_drop)
  show ?case
  proof (cases "int_shl (of_char ?c AND 0x1f) (5 * k)")
    case (Inl e)
    then have "e = SignedOverflow" by (auto simp: int_shl_def split: if_splits)
    then show ?thesis using at Inl by (subst (1 2) varint_loop.simps) simp
  next
    case (Inr d)
    show ?thesis
    proof (cases "(of_char ?c :: nat) AND 0x20 \<noteq> 0")
      case True
      have "drop (Suc (i + k)) (c_str enc) \<noteq> []"
        using sc True by auto
      then have lt: "i + (k + 1) < strlen enc" by (simp add: strlen_def)
      have "scan True (drop (i + (k + 1)) (c_str enc))"
        using sc True by simp
      from "1.IH" [OF at Inr True lt this] show ?thesis
        using at Inr True by (subst (1 2) varint_loop.simps) simp
    next
      case False
      then show ?thesis
        using at Inr sc "1.prems"(1) by (subst (1 2) varint_loop.simps) simp
    qed
  qed
qed

lemma decode_loop_in_bounds:
  "i \<le> strlen enc \<Longrightarrow> scan False (drop i (c_str enc)) \<Longrightarrow>
   decode_loop enc i prev zr dec \<noteq> Inl ReadPastTerminator"
proof (induction enc i prev zr dec rule: decode_loop.induct)
  case (1 enc i prev zr dec)
  obtain c where at: "str_at enc i = Inr c"
    using "1.prems"(1) by (cases "i < strlen enc") (auto simp: str_at_def)
  show ?case
  proof (cases "c \<noteq> CHR 0x00 \<or> zr \<noteq> 0")
    case False
    then show ?thesis using at by (subst decode_loop.simps) simp
  next
    case True
    have tok: "decode_token enc i zr \<noteq> Inl ReadPastTerminator \<and>
         (\<forall>d k z. decode_token enc i zr = Inr (d, k, z) \<longrightarrow>
            i + k \<le> strlen enc \<and> scan False (drop (i + k) (c_str enc)))"
    proof (cases "zr \<noteq> 0")
      case True
      then show ?thesis using "1.prems" by (simp add: decode_token_def)
    next
      case False
      with True have "c \<noteq> CHR 0x00" by simp
      then have lt: "i < strlen enc" and c: "c = enc ! i"
        using at "1.prems"(1) by (auto simp: str_at_def split: if_splits)
      have sc: "scan False (c # drop (Suc i) (c_str enc))"
        using "1.prems"(2) lt by (simp add: c_str_drop c)
      show ?thesis
      proof (cases "(of_char c :: nat) \<ge> 0x60")
        case True
        then show ?thesis using False at sc lt by (simp add: decode_token_def)
      next
        case big: False
        have "scan True (drop (i + 0) (c_str enc))"
          using sc big lt by (simp add: c_str_drop c)
        from varint_loop_in_bounds [OF _ this, of 0] lt
        show ?thesis using False at big
          by (auto simp: decode_token_def split: sum.splits)
      qed
    qed
    show ?thesis
    proof (cases "decode_token enc i zr")
      case (Inl e)
      then show ?thesis using at True tok by (subst decode_loop.simps) simp
    next
      case (Inr r)
      obtain d k z where r: "r = (d, k, z)" by (cases r)
      have b: "i + k \<le> strlen enc" "scan False (drop (i + k) (c_str enc))"
        using tok Inr r by simp_all
      show ?thesis
      proof (cases "int_add d 1")
        case (Inl e)
        then have "e = SignedOverflow" by (auto simp: int_add_def split: if_splits)
        then show ?thesis using at True Inr r Inl by (subst decode_loop.simps) simp
      next
        case d1: (Inr d1)
        show ?thesis
        proof (cases "int_add prev d1")
          case (Inl e)
          then have "e = SignedOverflow" by (auto simp: int_add_def split: if_splits)
          then show ?thesis using at True Inr r d1 Inl by (subst decode_loop.simps) simp
        next
          case l: (Inr l)
          from "1.IH" [OF at True Inr [unfolded r] refl refl d1 l b]
          show ?thesis using at True Inr r d1 l by (subst decode_loop.simps) simp
        qed
      qed
    qed
  qed
qed

text \<open>
  Claim C6, as the code has it. For every input byte string in which no varint is cut
  off by the terminating marker, \<open>decode\<close> reads only bytes at positions up to and
  including the marker: the model never stops with \<open>ReadPastTerminator\<close>.
\<close>

theorem decode_in_bounds:
  "varints_complete enc \<Longrightarrow> decode enc \<noteq> Inl ReadPastTerminator"
  unfolding decode_def varints_complete_def
  by (rule decode_loop_in_bounds) simp_all

theorem decode_in_bounds_witness:
  "varints_complete ''bA*B'' \<and> decode ''bA*B'' \<noteq> Inl ReadPastTerminator \<and>
   decode ''bA*B'' = Inr [1, 2, 3, 5, 80]"
proof -
  have h: "varints_complete ''bA*B''"
    by (simp add: varints_complete_def c_str_def)
  have "decode ''bA*B'' = Inr [1, 2, 3, 5, 80]"
    by code_simp
  with h decode_in_bounds [OF h] show ?thesis by simp
qed

text \<open>
  For a malformed string the claim fails. In "!" (the byte 0x21) the continuation bit
  is set immediately before the terminator: the inner loop takes the terminator as the
  next digit, \<open>enc_ind\<close> becomes 2, and the loop condition reads \<open>enc[2]\<close>.
\<close>

theorem decode_reads_past_terminator:
  "decode ''!'' = Inl ReadPastTerminator"
  by code_simp

section \<open>Building the word graph\<close>

lemma strlen_le: "strlen w \<le> length w"
  by (simp add: strlen_def c_str_def length_takeWhile_le)

lemma prefix_loop_long:
  assumes "long_enough w"
  shows "prefix_loop w 0 [] = Inr (prefix3 w)"
proof -
  have l: "3 \<le> strlen w" using assms by (simp add: long_enough_def)
  then have len: "3 \<le> length w" using strlen_le [of w] by linarith
  have at: "str_at w 0 = Inr (w ! 0)" "str_at w (Suc 0) = Inr (w ! Suc 0)"
    "str_at w (Suc (Suc 0)) = Inr (w ! Suc (Suc 0))"
    using l by (simp_all add: str_at_def)
  obtain a b c r where w: "w = a # b # c # r"
    using len by (cases w; cases "tl w"; cases "tl (tl w)") auto
  have p: "prefix3 w = [tolower (w ! 0), tolower (w ! Suc 0), tolower (w ! Suc (Suc 0))]"
    by (simp add: prefix3_def w numeral_3_eq_3)
  have "prefix_loop w 0 [] = prefix_loop w (Suc 0) [tolower (w ! 0)]"
    using at by (subst prefix_loop.simps) (simp add: PREFIX_LEN_def)
  also have "\<dots> = prefix_loop w (Suc (Suc 0)) [tolower (w ! 0), tolower (w ! Suc 0)]"
    using at by (subst prefix_loop.simps) (simp add: PREFIX_LEN_def)
  also have "\<dots> = prefix_loop w (Suc (Suc (Suc 0)))
                      [tolower (w ! 0), tolower (w ! Suc 0), tolower (w ! Suc (Suc 0))]"
    using at by (subst prefix_loop.simps) (simp add: PREFIX_LEN_def)
  also have "\<dots> = Inr [tolower (w ! 0), tolower (w ! Suc 0), tolower (w ! Suc (Suc 0))]"
    by (subst prefix_loop.simps) (simp add: PREFIX_LEN_def)
  finally show ?thesis by (simp add: p)
qed

lemma add_prefix_loop_from:
  "j \<le> length ps \<Longrightarrow>
   add_prefix_loop ps p i j =
     (if p \<notin> fst ` set (drop j ps) \<and> length ps = MAX_PREFIXES then Inl TooManyPrefixes
      else Inr (take j ps @ add_word (drop j ps) p i))"
proof (induction "length ps - j" arbitrary: j)
  case 0
  then have j: "j = length ps" by simp
  show ?case
    by (subst add_prefix_loop.simps) (simp add: j intvec_alloc_def intvec_append_def)
next
  case (Suc n)
  then have j: "j < length ps" by simp
  obtain q ws where pj: "ps ! j = (q, ws)" by (cases "ps ! j")
  have d: "drop j ps = (q, ws) # drop (Suc j) ps"
    using j pj by (simp add: Cons_nth_drop_Suc [symmetric])
  show ?case
  proof (cases "q = p")
    case True
    have "ps[j := (q, ws @ [i])] = take j ps @ (q, ws @ [i]) # drop (Suc j) ps"
      using j by (simp add: upd_conv_take_nth_drop)
    then show ?thesis
      using j pj True
      by (subst add_prefix_loop.simps) (simp add: d intvec_append_def)
  next
    case False
    have IH: "add_prefix_loop ps p i (Suc j) =
      (if p \<notin> fst ` set (drop (Suc j) ps) \<and> length ps = MAX_PREFIXES then Inl TooManyPrefixes
       else Inr (take (Suc j) ps @ add_word (drop (Suc j) ps) p i))"
      using Suc.hyps(2) j by (intro Suc.hyps(1)) simp_all
    have t: "take (Suc j) ps = take j ps @ [(q, ws)]"
      using j pj by (simp add: take_Suc_conv_app_nth)
    show ?thesis
      using j pj False IH
      by (subst add_prefix_loop.simps) (auto simp: d t)
  qed
qed

lemma add_prefix_loop_0:
  "add_prefix_loop ps p i 0 =
     (if p \<notin> fst ` set ps \<and> length ps = MAX_PREFIXES then Inl TooManyPrefixes
      else Inr (add_word ps p i))"
  using add_prefix_loop_from [of 0 ps p i] by simp

lemma map_fst_add_word:
  "map fst (add_word ps p i) = (if p \<in> fst ` set ps then map fst ps else map fst ps @ [p])"
  by (induction ps p i rule: add_word.induct) auto

lemma length_add_word:
  "length (add_word ps p i) = (if p \<in> fst ` set ps then length ps else Suc (length ps))"
  using arg_cong [OF map_fst_add_word, of length ps p i] by (simp split: if_splits)

lemma distinct_add_word:
  "distinct (map fst ps) \<Longrightarrow> distinct (map fst (add_word ps p i))"
  by (simp add: map_fst_add_word)

lemma length_add_words_mono: "length ps \<le> length (add_words i ws ps)"
proof (induction ws arbitrary: i ps)
  case Nil
  show ?case by simp
next
  case (Cons w ws)
  have "length ps \<le> length (add_word ps (prefix3 w) i)" by (simp add: length_add_word)
  also have "\<dots> \<le> length (add_words (i + 1) ws (add_word ps (prefix3 w) i))" by (rule Cons.IH)
  finally show ?case by simp
qed

lemma fst_set_add_word: "fst ` set (add_word ps p i) = insert p (fst ` set ps)"
  using arg_cong [OF map_fst_add_word, of set ps p i] by (auto split: if_splits)

lemma map_fst_add_words:
  "set (map fst (add_words i ws ps)) = set (map fst ps) \<union> set (map prefix3 ws)"
  by (induction ws arbitrary: i ps) (simp_all add: fst_set_add_word)

lemma distinct_add_words:
  "distinct (map fst ps) \<Longrightarrow> distinct (map fst (add_words i ws ps))"
  by (induction ws arbitrary: i ps) (simp_all add: distinct_add_word)

lemma length_add_words_card:
  "length (add_words i ws []) = card (set (map prefix3 ws))"
proof -
  have "distinct (map fst (add_words i ws []))" by (rule distinct_add_words) simp
  then have "card (set (map fst (add_words i ws []))) = length (map fst (add_words i ws []))"
    by (rule distinct_card)
  then show ?thesis by (simp only: map_fst_add_words) simp
qed

lemma read_words_ok:
  "list_all long_enough ws \<Longrightarrow> i + int (length ws) \<le> n_words g \<Longrightarrow>
   length (add_words i ws (prefixes g)) \<le> MAX_PREFIXES \<Longrightarrow>
   read_words i (ws @ rest) g =
   read_words (i + int (length ws)) rest
     (g\<lparr>words := store_lines i ws (words g), prefixes := add_words i ws (prefixes g)\<rparr>)"
proof (induction ws arbitrary: i g)
  case Nil
  show ?case by simp
next
  case (Cons w ws)
  let ?ps = "add_word (prefixes g) (prefix3 w) i"
  let ?g = "g\<lparr>words := (words g)[nat i := Some w], prefixes := ?ps\<rparr>"
  have i: "i < n_words g" using Cons.prems(2) by simp
  have p: "prefix_loop w 0 [] = Inr (prefix3 w)"
    using Cons.prems(1) by (simp add: prefix_loop_long)
  have "length ?ps \<le> length (add_words (i + 1) ws ?ps)" by (rule length_add_words_mono)
  then have "length ?ps \<le> MAX_PREFIXES" using Cons.prems(3) by simp
  then have a: "add_prefix_loop (prefixes g) (prefix3 w) i 0 = Inr ?ps"
    by (auto simp: add_prefix_loop_0 length_add_word split: if_splits)
  have "read_words i ((w # ws) @ rest) g = read_words (i + 1) (ws @ rest) ?g"
    using i p a by (subst read_words.simps) simp
  also have "\<dots> = read_words (i + 1 + int (length ws)) rest
     (?g\<lparr>words := store_lines (i + 1) ws (words ?g),
         prefixes := add_words (i + 1) ws (prefixes ?g)\<rparr>)"
    using Cons.prems by (intro Cons.IH) simp_all
  finally show ?case by (simp add: add.assoc)
qed

lemma read_words_too_many:
  "list_all long_enough ws \<Longrightarrow> i + int (length ws) \<le> n_words g \<Longrightarrow>
   length (prefixes g) \<le> MAX_PREFIXES \<Longrightarrow>
   MAX_PREFIXES < length (add_words i ws (prefixes g)) \<Longrightarrow>
   read_words i (ws @ rest) g = Inl TooManyPrefixes"
proof (induction ws arbitrary: i g)
  case Nil
  then show ?case by simp
next
  case (Cons w ws)
  let ?ps = "add_word (prefixes g) (prefix3 w) i"
  let ?g = "g\<lparr>words := (words g)[nat i := Some w], prefixes := ?ps\<rparr>"
  have i: "i < n_words g" using Cons.prems(2) by simp
  have p: "prefix_loop w 0 [] = Inr (prefix3 w)"
    using Cons.prems(1) by (simp add: prefix_loop_long)
  show ?case
  proof (cases "prefix3 w \<notin> fst ` set (prefixes g) \<and> length (prefixes g) = MAX_PREFIXES")
    case True
    then show ?thesis
      using i p by (subst read_words.simps) (simp add: add_prefix_loop_0)
  next
    case False
    then have a: "add_prefix_loop (prefixes g) (prefix3 w) i 0 = Inr ?ps"
      by (simp add: add_prefix_loop_0)
    have le: "length ?ps \<le> MAX_PREFIXES"
      using False Cons.prems(3) by (auto simp: length_add_word)
    have "read_words i ((w # ws) @ rest) g = read_words (i + 1) (ws @ rest) ?g"
      using i p a by (subst read_words.simps) simp
    also have "\<dots> = Inl TooManyPrefixes"
      using Cons.prems le by (intro Cons.IH) simp_all
    finally show ?thesis .
  qed
qed

lemma read_words_next_too_many:
  assumes "list_all long_enough (ws @ [w])" "i + int (length ws) < n_words g"
    "length (add_words i ws (prefixes g)) = MAX_PREFIXES"
    "prefix3 w \<notin> fst ` set (add_words i ws (prefixes g))"
  shows "read_words i (ws @ w # rest) g = Inl TooManyPrefixes"
proof -
  let ?g = "g\<lparr>words := store_lines i ws (words g), prefixes := add_words i ws (prefixes g)\<rparr>"
  have "read_words i (ws @ w # rest) g = read_words (i + int (length ws)) (w # rest) ?g"
    using assms by (intro read_words_ok) simp_all
  also have "\<dots> = Inl TooManyPrefixes"
    using assms by (subst read_words.simps) (simp add: prefix_loop_long add_prefix_loop_0)
  finally show ?thesis .
qed

lemma read_words_done: "n_words g \<le> i \<Longrightarrow> read_words i ls g = Inr (ls, g)"
  by (subst read_words.simps) simp

lemma read_followers_done: "n_words g \<le> i \<Longrightarrow> read_followers i ls g = Inr (ls, g)"
  by (subst read_followers.simps) simp

lemma read_followers_ok:
  "i + int (length ls) \<le> n_words g \<Longrightarrow>
   read_followers i (ls @ rest) g =
   read_followers (i + int (length ls)) rest
     (g\<lparr>followers_compressed := store_lines i ls (followers_compressed g)\<rparr>)"
proof (induction ls arbitrary: i g)
  case Nil
  show ?case by simp
next
  case (Cons l ls)
  let ?g = "g\<lparr>followers_compressed := (followers_compressed g)[nat i := Some l]\<rparr>"
  have i: "i < n_words g" using Cons.prems by simp
  have "read_followers i ((l # ls) @ rest) g = read_followers (i + 1) (ls @ rest) ?g"
    using i by (subst read_followers.simps) simp
  also have "\<dots> = read_followers (i + 1 + int (length ls)) rest
     (?g\<lparr>followers_compressed := store_lines (i + 1) ls (followers_compressed ?g)\<rparr>)"
    using Cons.prems by (intro Cons.IH) simp_all
  finally show ?case by (simp add: add.assoc)
qed

text \<open>What \<open>wordgraph_init\<close> returns on a well-formed file, by the number of prefixes.\<close>

lemma wordgraph_init_well_formed:
  assumes "well_formed f" "header f = Some n"
  shows "wordgraph_init f =
     (if MAX_PREFIXES < n_distinct_prefixes f then Inl TooManyPrefixes
      else if n_distinct_prefixes f \<noteq> MAX_PREFIXES then Inl NotEnoughPrefixes
      else Inr \<lparr>n_words = n,
                words = store_lines 1 (word_lines f) (replicate (nat n) None),
                followers_compressed = store_lines 0 (follower_lines f) (replicate (nat n) None),
                prefixes = add_words 1 (word_lines f) []\<rparr>)"
proof -
  let ?g0 = "\<lparr>n_words = n, words = replicate (nat n) None,
              followers_compressed = replicate (nat n) None, prefixes = []\<rparr>"
  let ?ws = "word_lines f" and ?fs = "follower_lines f"
  define rest where "rest = drop (nat (n - 1)) (body f)"
  define tail where "tail = drop (nat n) rest"
  have len: "nat (n - 1) + nat n \<le> length (body f)" and long: "list_all long_enough ?ws"
    using assms by (simp_all add: well_formed_def)
  have ws: "?ws = take (nat (n - 1)) (body f)" using assms(2) by (simp add: word_lines_def)
  have fs: "?fs = take (nat n) rest" using assms(2) by (simp add: follower_lines_def rest_def)
  have body: "body f = ?ws @ rest" by (simp add: ws rest_def)
  have rest: "rest = ?fs @ tail" by (simp add: fs tail_def)
  have lws: "length ?ws = nat (n - 1)" using len by (simp add: ws)
  have lfs: "length ?fs = nat n" using len by (simp add: fs rest_def)
  have card: "length (add_words 1 ?ws []) = n_distinct_prefixes f"
    by (simp add: length_add_words_card n_distinct_prefixes_def)
  show ?thesis
  proof (cases "n < 1")
    case True
    then have "?ws = []" by (simp add: ws)
    then have "n_distinct_prefixes f = 0" by (simp add: n_distinct_prefixes_def)
    moreover have "read_words 1 (body f) ?g0 = Inr (body f, ?g0)"
      using True by (intro read_words_done) simp
    ultimately show ?thesis
      using assms(2) by (simp add: wordgraph_init_def n_prefixes_def MAX_PREFIXES_def)
  next
    case False
    then have n: "1 + int (length ?ws) = n" using lws by simp
    show ?thesis
    proof (cases "MAX_PREFIXES < n_distinct_prefixes f")
      case True
      have "read_words 1 (?ws @ rest) ?g0 = Inl TooManyPrefixes"
        using long n True card by (intro read_words_too_many) simp_all
      then show ?thesis
        using assms(2) True by (simp add: wordgraph_init_def body)
    next
      case le: False
      let ?g1 = "?g0\<lparr>words := store_lines 1 ?ws (words ?g0),
                      prefixes := add_words 1 ?ws (prefixes ?g0)\<rparr>"
      have "read_words 1 (?ws @ rest) ?g0 = read_words (1 + int (length ?ws)) rest ?g1"
        using long n le card by (intro read_words_ok) simp_all
      also have "\<dots> = Inr (rest, ?g1)"
        using n by (intro read_words_done) simp
      finally have rw: "read_words 1 (body f) ?g0 = Inr (rest, ?g1)"
        by (simp add: body)
      show ?thesis
      proof (cases "n_distinct_prefixes f = MAX_PREFIXES")
        case False
        then show ?thesis
          using assms(2) le rw card by (simp add: wordgraph_init_def n_prefixes_def)
      next
        case True
        let ?g2 = "?g1\<lparr>followers_compressed := store_lines 0 ?fs (followers_compressed ?g1)\<rparr>"
        have "read_followers 0 (?fs @ tail) ?g1 = read_followers (0 + int (length ?fs)) tail ?g2"
          using lfs False by (intro read_followers_ok) simp
        also have "\<dots> = Inr (tail, ?g2)"
          using lfs False by (intro read_followers_done) simp
        finally have "read_followers 0 rest ?g1 = Inr (tail, ?g2)"
          by (simp add: rest)
        then show ?thesis
          using assms(2) True rw card by (simp add: wordgraph_init_def n_prefixes_def)
      qed
    qed
  qed
qed

lemma of_char_letter: "j < 16 \<Longrightarrow> (of_char (char_of (97 + j :: nat)) :: nat) = 97 + j"
  by simp

lemma letter_not_NUL: "j < 16 \<Longrightarrow> char_of (97 + j :: nat) \<noteq> CHR 0x00"
proof
  assume j: "j < 16" and "char_of (97 + j) = CHR 0x00"
  then have "(of_char (char_of (97 + j)) :: nat) = 0" by simp
  with j show False by simp
qed

lemma tolower_letter: "j < 16 \<Longrightarrow> tolower (char_of (97 + j :: nat)) = char_of (97 + j)"
  by (simp add: tolower_def)

lemma example_word_digits:
  assumes "(k::nat) < 4096"
  shows "k div 256 < 16" "k div 16 mod 16 < 16" "k mod 16 < 16"
proof -
  show "k div 256 < 16" using assms by (intro less_mult_imp_div_less) simp
qed simp_all

lemma long_enough_example_word: "k < 4096 \<Longrightarrow> long_enough (example_word k)"
  using example_word_digits [of k]
  by (simp add: long_enough_def strlen_def c_str_def example_word_def letter_not_NUL)

lemma prefix3_example_word: "k < 4096 \<Longrightarrow> prefix3 (example_word k) = example_word k"
  using example_word_digits [of k]
  by (simp add: prefix3_def example_word_def tolower_letter)

lemma letter_inj:
  assumes "char_of (97 + i :: nat) = char_of (97 + j)" "i < 16" "j < 16"
  shows "i = j"
proof -
  have "(of_char (char_of (97 + i)) :: nat) = of_char (char_of (97 + j))"
    using assms(1) by simp
  then show ?thesis using assms(2,3) by simp
qed

lemma example_word_inj:
  assumes "example_word i = example_word j" "i < 4096" "j < 4096"
  shows "i = j"
proof -
  have a: "i div 256 = j div 256" "i div 16 mod 16 = j div 16 mod 16" "i mod 16 = j mod 16"
    using assms example_word_digits [of i] example_word_digits [of j]
    by (auto simp: example_word_def dest: letter_inj)
  have d: "\<And>k::nat. k div 256 = k div 16 div 16" by (simp add: div_mult2_eq)
  have "i div 16 = 16 * (i div 16 div 16) + i div 16 mod 16" by simp
  also have "\<dots> = 16 * (j div 16 div 16) + j div 16 mod 16" using a by (simp add: d)
  also have "\<dots> = j div 16" by simp
  finally have "i div 16 = j div 16" .
  then have "16 * (i div 16) + i mod 16 = 16 * (j div 16) + j mod 16" using a by simp
  then show ?thesis by simp
qed

lemma example_words_distinct: "m \<le> 4096 \<Longrightarrow> distinct (map example_word [0..<m])"
  by (auto simp: distinct_map inj_on_def dest: example_word_inj)

lemma example_corpus_lines:
  "word_lines (example_corpus m fls) = map example_word [0..<m]"
  "follower_lines (example_corpus m fls) = take (Suc m) fls"
  by (simp_all add: word_lines_def follower_lines_def example_corpus_def nat_add_distrib)

lemma example_corpus_prefixes:
  assumes "m \<le> 4096"
  shows "n_distinct_prefixes (example_corpus m fls) = m"
proof -
  have "map prefix3 (map example_word [0..<m]) = map example_word [0..<m]"
    using assms by (simp add: prefix3_example_word)
  then have "n_distinct_prefixes (example_corpus m fls) = card (set (map example_word [0..<m]))"
    by (simp only: n_distinct_prefixes_def example_corpus_lines)
  also have "\<dots> = length (map example_word [0..<m])"
    using assms by (intro distinct_card example_words_distinct)
  finally show ?thesis by simp
qed

lemma example_corpus_well_formed:
  assumes "m \<le> 4096" "Suc m \<le> length fls"
  shows "well_formed (example_corpus m fls)"
proof -
  have "list_all long_enough (map example_word [0..<m])"
    using assms(1) by (auto simp: list_all_iff long_enough_example_word)
  then have "list_all long_enough (word_lines (example_corpus m fls))"
    by (simp only: example_corpus_lines)
  moreover have "header (example_corpus m fls) = Some (int m + 1)"
    by (simp add: example_corpus_def)
  moreover have "nat (int m + 1 - 1) + nat (int m + 1) \<le> length (body (example_corpus m fls))"
    using assms(2) by (simp add: example_corpus_def nat_add_distrib)
  ultimately show ?thesis by (simp add: well_formed_def)
qed

text \<open>
  Claim C5. On a well-formed corpus (enough lines, every word at least three characters
  long) \<open>wordgraph_init\<close> succeeds when the words have exactly 1024 distinct
  lower-cased three-character prefixes, stops with the not-enough-prefixes error when
  they have fewer, stops with the too-many-prefixes error when they have more, and so
  succeeds only with exactly 1024. The too-many error comes as soon as the word with the
  1025th prefix is read: whatever follows that word in the file is not looked at.
\<close>

theorem wordgraph_init_prefix_count:
  "(well_formed f \<longrightarrow>
      (n_distinct_prefixes f = 1024 \<longrightarrow> (\<exists>g. wordgraph_init f = Inr g)) \<and>
      (n_distinct_prefixes f < 1024 \<longrightarrow> wordgraph_init f = Inl NotEnoughPrefixes) \<and>
      (1024 < n_distinct_prefixes f \<longrightarrow> wordgraph_init f = Inl TooManyPrefixes) \<and>
      (\<forall>g. wordgraph_init f = Inr g \<longrightarrow> n_distinct_prefixes f = 1024)) \<and>
   (header f = Some n \<and> body f = ws @ w # rest \<and> 1 + int (length ws) < n \<and>
    list_all long_enough (ws @ [w]) \<and> card (set (map prefix3 ws)) = 1024 \<and>
    prefix3 w \<notin> set (map prefix3 ws) \<longrightarrow>
      wordgraph_init f = Inl TooManyPrefixes)"
proof (intro conjI impI)
  assume wf: "well_formed f"
  then obtain n where h: "header f = Some n"
    by (auto simp: well_formed_def split: option.splits)
  note r = wordgraph_init_well_formed [OF wf h]
  show "n_distinct_prefixes f = 1024 \<Longrightarrow> \<exists>g. wordgraph_init f = Inr g"
    by (simp add: r MAX_PREFIXES_def)
  show "n_distinct_prefixes f < 1024 \<Longrightarrow> wordgraph_init f = Inl NotEnoughPrefixes"
    by (simp add: r MAX_PREFIXES_def)
  show "1024 < n_distinct_prefixes f \<Longrightarrow> wordgraph_init f = Inl TooManyPrefixes"
    by (simp add: r MAX_PREFIXES_def)
  show "\<forall>g. wordgraph_init f = Inr g \<longrightarrow> n_distinct_prefixes f = 1024"
    by (simp add: r MAX_PREFIXES_def)
next
  assume a: "header f = Some n \<and> body f = ws @ w # rest \<and> 1 + int (length ws) < n \<and>
    list_all long_enough (ws @ [w]) \<and> card (set (map prefix3 ws)) = 1024 \<and>
    prefix3 w \<notin> set (map prefix3 ws)"
  let ?g0 = "\<lparr>n_words = n, words = replicate (nat n) None,
              followers_compressed = replicate (nat n) None, prefixes = []\<rparr>"
  have "read_words 1 (ws @ w # rest) ?g0 = Inl TooManyPrefixes"
  proof (rule read_words_next_too_many)
    show "list_all long_enough (ws @ [w])" using a by simp
    show "1 + int (length ws) < n_words ?g0" using a by simp
    show "length (add_words 1 ws (prefixes ?g0)) = MAX_PREFIXES"
      using a by (simp add: length_add_words_card MAX_PREFIXES_def)
    have "fst ` set (add_words 1 ws []) = set (map prefix3 ws)"
      using map_fst_add_words [of 1 ws "[]"] by simp
    then show "prefix3 w \<notin> fst ` set (add_words 1 ws (prefixes ?g0))"
      using a by simp
  qed
  then show "wordgraph_init f = Inl TooManyPrefixes"
    using a by (simp add: wordgraph_init_def)
qed

theorem wordgraph_init_prefix_count_witness:
  "well_formed (example_corpus 1024 (replicate 1025 [])) \<and>
   n_distinct_prefixes (example_corpus 1024 (replicate 1025 [])) = 1024 \<and>
   (\<exists>g. wordgraph_init (example_corpus 1024 (replicate 1025 [])) = Inr g) \<and>
   well_formed (example_corpus 1023 (replicate 1024 [])) \<and>
   n_distinct_prefixes (example_corpus 1023 (replicate 1024 [])) < 1024 \<and>
   wordgraph_init (example_corpus 1023 (replicate 1024 [])) = Inl NotEnoughPrefixes \<and>
   well_formed (example_corpus 1025 (replicate 1026 [])) \<and>
   1024 < n_distinct_prefixes (example_corpus 1025 (replicate 1026 [])) \<and>
   wordgraph_init (example_corpus 1025 (replicate 1026 [])) = Inl TooManyPrefixes"
proof -
  have w: "well_formed (example_corpus 1024 (replicate 1025 []))"
    "well_formed (example_corpus 1023 (replicate 1024 []))"
    "well_formed (example_corpus 1025 (replicate 1026 []))"
    by (rule example_corpus_well_formed; simp)+
  have n: "n_distinct_prefixes (example_corpus 1024 (replicate 1025 [])) = 1024"
    "n_distinct_prefixes (example_corpus 1023 (replicate 1024 [])) = 1023"
    "n_distinct_prefixes (example_corpus 1025 (replicate 1026 [])) = 1025"
    by (simp_all add: example_corpus_prefixes)
  show ?thesis
    using wordgraph_init_prefix_count [of "example_corpus 1024 (replicate 1025 [])"]
      wordgraph_init_prefix_count [of "example_corpus 1023 (replicate 1024 [])"]
      wordgraph_init_prefix_count [of "example_corpus 1025 (replicate 1026 [])"] w n
    by simp
qed

section \<open>One round of the generator\<close>

lemma intvec_copy_loop_drop: "intvec_copy_loop vec i ret = ret @ drop i vec"
proof (induction vec i ret rule: intvec_copy_loop.induct)
  case (1 vec i ret)
  show ?case
  proof (cases "i < length vec")
    case True
    then show ?thesis
      using "1.IH" by (subst intvec_copy_loop.simps)
        (simp add: intvec_append_def Cons_nth_drop_Suc)
  next
    case False
    then show ?thesis by (subst intvec_copy_loop.simps) simp
  qed
qed

lemma intvec_copy_id: "intvec_copy vec = vec"
  by (simp add: intvec_copy_def intvec_copy_loop_drop intvec_alloc_def)












lemma prefix_words_error: "prefix_words g k = Inl e \<Longrightarrow> e = InvalidAccess"
  by (auto simp: prefix_words_def split: if_splits)























lemma store_lines_closed:
  "0 \<le> i \<Longrightarrow> nat i + length ls \<le> length arr \<Longrightarrow>
   store_lines i ls arr = take (nat i) arr @ map Some ls @ drop (nat i + length ls) arr"
proof (induction ls arbitrary: i arr)
  case Nil
  show ?case by simp
next
  case (Cons l ls)
  have n: "nat (i + 1) = Suc (nat i)" using Cons.prems(1) by simp
  have lt: "nat i < length arr" using Cons.prems(2) by simp
  have "store_lines i (l # ls) arr = store_lines (i + 1) ls (arr[nat i := Some l])" by simp
  also have "\<dots> = take (nat (i + 1)) (arr[nat i := Some l]) @ map Some ls @
                   drop (nat (i + 1) + length ls) (arr[nat i := Some l])"
    using Cons.prems by (intro Cons.IH) simp_all
  also have "take (nat (i + 1)) (arr[nat i := Some l]) = take (nat i) arr @ [Some l]"
    using lt by (simp add: n take_Suc_conv_app_nth)
  also have "drop (nat (i + 1) + length ls) (arr[nat i := Some l]) =
             drop (nat i + length (l # ls)) arr"
    by (simp add: n)
  finally show ?case by simp
qed

lemma add_word_fresh: "p \<notin> fst ` set ps \<Longrightarrow> add_word ps p i = ps @ [(p, [i])]"
  by (induction ps p i rule: add_word.induct) auto

lemma add_words_fresh:
  "distinct (map prefix3 ws) \<Longrightarrow> set (map prefix3 ws) \<inter> fst ` set ps = {} \<Longrightarrow>
   add_words i ws ps = ps @ map (\<lambda>k. (prefix3 (ws ! k), [i + int k])) [0..<length ws]"
proof (induction ws arbitrary: i ps)
  case Nil
  show ?case by simp
next
  case (Cons w ws)
  let ?ps = "ps @ [(prefix3 w, [i])]"
  have a: "add_word ps (prefix3 w) i = ?ps"
    using Cons.prems(2) by (intro add_word_fresh) auto
  have "add_words (i + 1) ws ?ps =
        ?ps @ map (\<lambda>k. (prefix3 (ws ! k), [i + 1 + int k])) [0..<length ws]"
    using Cons.prems by (intro Cons.IH) auto
  then show ?case
    by (simp add: a map_upt_Suc add.assoc del: upt_Suc)
qed

lemma example_prefixes:
  assumes "m \<le> 4096"
  shows "add_words 1 (map example_word [0..<m]) [] =
         map (\<lambda>k. (example_word k, [int k + 1])) [0..<m]"
proof -
  let ?ws = "map example_word [0..<m]"
  have p: "map prefix3 ?ws = ?ws" using assms by (simp add: prefix3_example_word)
  have "distinct (map prefix3 ?ws)"
    using assms by (simp only: p example_words_distinct)
  then have "add_words 1 ?ws [] = [] @ map (\<lambda>k. (prefix3 (?ws ! k), [1 + int k])) [0..<length ?ws]"
    by (intro add_words_fresh) simp_all
  also have "\<dots> = map (\<lambda>k. (example_word k, [int k + 1])) [0..<m]"
    using assms by (simp add: prefix3_example_word)
  finally show ?thesis .
qed

lemma example_graph_built:
  "wordgraph_init (example_corpus 1024 example_followers) = Inr example_graph"
proof -
  let ?f = "example_corpus 1024 example_followers"
  have wf: "well_formed ?f"
    by (rule example_corpus_well_formed) (simp_all add: example_followers_def)
  have h: "header ?f = Some 1025" by (simp add: example_corpus_def)
  have n: "n_distinct_prefixes ?f = MAX_PREFIXES"
    by (simp add: example_corpus_prefixes MAX_PREFIXES_def)
  have fl: "follower_lines ?f = example_followers"
    by (simp add: example_corpus_lines example_followers_def)
  have w: "store_lines 1 (word_lines ?f) (replicate (nat 1025) None) =
           None # map (\<lambda>k. Some (example_word k)) [0..<1024]"
    by (simp add: store_lines_closed example_corpus_lines comp_def)
  have lf: "length example_followers = 1025" by (simp add: example_followers_def)
  have f: "store_lines 0 (follower_lines ?f) (replicate (nat 1025) None) =
           map Some example_followers"
    by (simp add: store_lines_closed fl lf)
  have p: "add_words 1 (word_lines ?f) [] = map (\<lambda>k. (example_word k, [int k + 1])) [0..<1024]"
    by (simp add: example_corpus_lines example_prefixes)
  show ?thesis
    unfolding wordgraph_init_well_formed [OF wf h] example_graph_def
    by (simp only: n w f p) simp
qed

lemma decode_A: "decode ''A'' = Inr [2]"
  by code_simp

lemma decode_empty: "decode [] = Inr []"
  by code_simp

lemma example_followers_at:
  "followers_at example_graph 1 = Inr ''A''" "followers_at example_graph 2 = Inr []"
  by (simp_all add: followers_at_def example_graph_def example_followers_def)

lemma example_prefix_words:
  "prefix_words example_graph 0 = Inr [1]" "prefix_words example_graph 1 = Inr [2]"
  by (simp_all add: prefix_words_def n_prefixes_def example_graph_def)

lemma example_choose_sets:
  "choose_sets example_graph [0, 1] = Inr ([0, 1], [[1], [2]])"
  by (simp add: example_prefix_words MAX_PREFIXES_def intvec_copy_id)

lemma example_intersect:
  "intvec_intersect [2] [2] = Inr [2]" "intvec_intersect [1] [2] = Inr []"
  by (simp_all add: intvec_intersect_def intersect_loop.simps int_sub_def is_int_def
      INT_MIN_def INT_MAX_def intvec_alloc_def intvec_append_def)

lemma example_backward:
  "backward_loop example_graph (length [0 :: int, 1]) [[1], [2]] 0 None = Inr ([[1], [2]], 1)"
  by (simp add: numeral_2_eq_2 narrow_loop.simps intvec_get_def example_followers_at
      decode_A example_intersect intvec_alloc_def intvec_append_def)

lemma example_forward:
  "forward_loop example_graph [[1], [2]] 0 1 [] = Inr [1, 2]"
  by (simp add: forward_loop.simps intvec_get_def example_followers_at
      decode_A example_intersect)

lemma example_generate:
  "generate example_graph [0, 1] 1 =
   Inr \<lparr>chosen_prefixes = [0, 1], final_sets = [[1], [2]], mismatches = 1, chosen_words = [1, 2]\<rparr>"
  unfolding generate_def
  by (simp only: example_choose_sets example_backward example_forward sum.case prod.case)



lemma backward_loop_mismatch_mono:
  "backward_loop g k sets mm nw = Inr (sets', mm') \<Longrightarrow> mm \<le> mm'"
proof (induction g k sets mm nw rule: backward_loop.induct)
  case (1 g sets mm nw)
  then show ?case by simp
next
  case (2 g i sets mm nw)
  from "2.prems" "2.IH" show ?case
    by (fastforce split: sum.splits if_splits option.splits)
qed

text \<open>
  Claim C2 fails on the code. In the backward pass the last position has no next set,
  so its \<open>new_words\<close> stays empty and the branch that keeps the old set also counts a
  mismatch: every round over a non-empty chain reports at least one mismatch, also when
  every link is possible.
\<close>

theorem last_position_counts_as_mismatch:
  assumes "generate g rnd start_word = Inr r" "rnd \<noteq> []"
  shows "1 \<le> mismatches r"
proof -
  from assms(2) obtain k where k: "length rnd = Suc k" by (cases rnd) auto
  from assms(1) obtain ps sets sets' mm ws where
    bw: "backward_loop g (length rnd) sets 0 None = Inr (sets', mm)" and
    r: "r = \<lparr>chosen_prefixes = ps, final_sets = sets', mismatches = mm, chosen_words = ws\<rparr>"
    by (auto simp: generate_def split: sum.splits)
  from bw have "backward_loop g k sets 1 (Some (sets ! k)) = Inr (sets', mm)"
    by (simp add: k intvec_alloc_def)
  then have "1 \<le> mm" by (rule backward_loop_mismatch_mono)
  then show ?thesis by (simp add: r)
qed

text \<open>
  The case of the claim: word 1 has the follower 2, the chain of length 2 is hooked at
  word 1 and the group of word 2 is sampled at position 1. Word 2 is selected there, and
  the round reports one mismatch, not zero.
\<close>

theorem last_position_counts_as_mismatch_witness:
  "generate example_graph [0, 1] 1 =
     Inr \<lparr>chosen_prefixes = [0, 1], final_sets = [[1], [2]], mismatches = 1,
          chosen_words = [1, 2]\<rparr> \<and>
   [0 :: int, 1] \<noteq> [] \<and>
   1 \<le> mismatches \<lparr>chosen_prefixes = [0, 1], final_sets = [[1], [2]], mismatches = 1,
          chosen_words = [1, 2]\<rparr> \<and>
   wordgraph_init (example_corpus 1024 example_followers) = Inr example_graph \<and>
   followers_at example_graph 1 = Inr ''A'' \<and> decode ''A'' = Inr [2] \<and>
   prefix_words example_graph 1 = Inr [2]"
proof -
  have "[0 :: int, 1] \<noteq> []" by simp
  from last_position_counts_as_mismatch [OF example_generate this]
  show ?thesis
    using example_generate example_graph_built example_followers_at(1) decode_A
      example_prefix_words(2)
    by simp
qed

section \<open>The edit distance and the nearest word\<close>

lemma lev_Nil2 [simp]: "lev xs [] = length xs"
  by (cases xs) simp_all

lemma edits_insert_all: "edits (length ys) [] ys"
proof (induction ys)
  case Nil
  show ?case using edits_Nil by simp
next
  case (Cons y ys)
  from edits_Insert [OF Cons] show ?case by simp
qed

lemma edits_delete_all: "edits (length xs) xs []"
proof (induction xs)
  case Nil
  show ?case using edits_Nil by simp
next
  case (Cons x xs)
  from edits_Delete [OF Cons] show ?case by simp
qed

lemma min_cases: "P (a :: nat) \<Longrightarrow> P b \<Longrightarrow> P (min a b)"
  by (simp add: min_def)

lemma lev_edits: "edits (lev xs ys) xs ys"
proof (induction xs ys rule: lev.induct)
  case (1 ys)
  show ?case by (simp add: edits_insert_all)
next
  case (2 x xs)
  show ?case using edits_delete_all [of "x # xs"] by simp
next
  case (3 x xs y ys)
  let ?d = "lev xs (y # ys) + 1" and ?i = "lev (x # xs) ys + 1"
  let ?s = "lev xs ys + (if x = y then 0 else 1)"
  have d: "edits ?d (x # xs) (y # ys)" using edits_Delete [OF "3.IH"(1)] by simp
  have i: "edits ?i (x # xs) (y # ys)" using edits_Insert [OF "3.IH"(2)] by simp
  have s: "edits ?s (x # xs) (y # ys)"
    using edits_Keep [OF "3.IH"(3)] edits_Subst [OF "3.IH"(3)] by simp
  have "edits (min ?d (min ?i ?s)) (x # xs) (y # ys)"
    by (intro min_cases [where P = "\<lambda>n. edits n (x # xs) (y # ys)"] d i s)
  then show ?case by simp
qed

lemma lev_step_le:
  "lev (x # xs) (x # ys) \<le> lev xs ys"
  "lev (x # xs) (y # ys) \<le> Suc (lev xs ys)"
  by (simp_all add: min_le_iff_disj)

lemma lev_delete_le: "lev (x # xs) ys \<le> Suc (lev xs ys)"
  by (cases ys) (simp_all add: min_le_iff_disj)

lemma lev_insert_le: "lev xs (y # ys) \<le> Suc (lev xs ys)"
  by (cases xs) (simp_all add: min_le_iff_disj)

lemma edits_lev: "edits n xs ys \<Longrightarrow> lev xs ys \<le> n"
proof (induction rule: edits.induct)
  case edits_Nil
  show ?case by simp
next
  case (edits_Keep n xs ys x)
  then show ?case using lev_step_le(1) [of x xs ys] by linarith
next
  case (edits_Subst n xs ys x y)
  then show ?case using lev_step_le(2) [of x xs y ys] by linarith
next
  case (edits_Delete n xs ys x)
  then show ?case using lev_delete_le [of x xs ys] by linarith
next
  case (edits_Insert n xs ys y)
  then show ?case using lev_insert_le [of xs y ys] by linarith
qed

lemma edits_snoc_keep: "edits n xs ys \<Longrightarrow> edits n (xs @ [x]) (ys @ [x])"
proof (induction rule: edits.induct)
  case edits_Nil
  show ?case using edits.edits_Keep [OF edits.edits_Nil] by simp
next
  case (edits_Keep n xs ys z)
  from edits.edits_Keep [OF edits_Keep.IH] show ?case by simp
next
  case (edits_Subst n xs ys z w)
  from edits.edits_Subst [OF edits_Subst.IH] show ?case by simp
next
  case (edits_Delete n xs ys z)
  from edits.edits_Delete [OF edits_Delete.IH] show ?case by simp
next
  case (edits_Insert n xs ys w)
  from edits.edits_Insert [OF edits_Insert.IH] show ?case by simp
qed

lemma edits_snoc_subst: "edits n xs ys \<Longrightarrow> edits (Suc n) (xs @ [x]) (ys @ [y])"
proof (induction rule: edits.induct)
  case edits_Nil
  show ?case using edits.edits_Subst [OF edits.edits_Nil] by simp
next
  case (edits_Keep n xs ys z)
  from edits.edits_Keep [OF edits_Keep.IH] show ?case by simp
next
  case (edits_Subst n xs ys z w)
  from edits.edits_Subst [OF edits_Subst.IH] show ?case by simp
next
  case (edits_Delete n xs ys z)
  from edits.edits_Delete [OF edits_Delete.IH] show ?case by simp
next
  case (edits_Insert n xs ys w)
  from edits.edits_Insert [OF edits_Insert.IH] show ?case by simp
qed

lemma edits_snoc_delete: "edits n xs ys \<Longrightarrow> edits (Suc n) (xs @ [x]) ys"
proof (induction rule: edits.induct)
  case edits_Nil
  show ?case using edits.edits_Delete [OF edits.edits_Nil] by simp
next
  case (edits_Keep n xs ys z)
  from edits.edits_Keep [OF edits_Keep.IH] show ?case by simp
next
  case (edits_Subst n xs ys z w)
  from edits.edits_Subst [OF edits_Subst.IH] show ?case by simp
next
  case (edits_Delete n xs ys z)
  from edits.edits_Delete [OF edits_Delete.IH] show ?case by simp
next
  case (edits_Insert n xs ys w)
  from edits.edits_Insert [OF edits_Insert.IH] show ?case by simp
qed

lemma edits_snoc_insert: "edits n xs ys \<Longrightarrow> edits (Suc n) xs (ys @ [y])"
proof (induction rule: edits.induct)
  case edits_Nil
  show ?case using edits.edits_Insert [OF edits.edits_Nil] by simp
next
  case (edits_Keep n xs ys z)
  from edits.edits_Keep [OF edits_Keep.IH] show ?case by simp
next
  case (edits_Subst n xs ys z w)
  from edits.edits_Subst [OF edits_Subst.IH] show ?case by simp
next
  case (edits_Delete n xs ys z)
  from edits.edits_Delete [OF edits_Delete.IH] show ?case by simp
next
  case (edits_Insert n xs ys w)
  from edits.edits_Insert [OF edits_Insert.IH] show ?case by simp
qed

lemma edits_rev: "edits n xs ys \<Longrightarrow> edits n (rev xs) (rev ys)"
proof (induction rule: edits.induct)
  case edits_Nil
  show ?case using edits.edits_Nil by simp
next
  case (edits_Keep n xs ys z)
  from edits_snoc_keep [OF edits_Keep.IH] show ?case by simp
next
  case (edits_Subst n xs ys z w)
  from edits_snoc_subst [OF edits_Subst.IH] show ?case by simp
next
  case (edits_Delete n xs ys z)
  from edits_snoc_delete [OF edits_Delete.IH] show ?case by simp
next
  case (edits_Insert n xs ys w)
  from edits_snoc_insert [OF edits_Insert.IH] show ?case by simp
qed

lemma edits_sym: "edits n xs ys \<Longrightarrow> edits n ys xs"
proof (induction rule: edits.induct)
  case edits_Nil
  show ?case by (rule edits.edits_Nil)
next
  case (edits_Keep n xs ys z)
  from edits_Keep.IH show ?case by (rule edits.edits_Keep)
next
  case (edits_Subst n xs ys z w)
  from edits_Subst.IH show ?case by (rule edits.edits_Subst)
next
  case (edits_Delete n xs ys z)
  from edits_Delete.IH show ?case by (rule edits.edits_Insert)
next
  case (edits_Insert n xs ys w)
  from edits_Insert.IH show ?case by (rule edits.edits_Delete)
qed

lemma edits_length: "edits n xs ys \<Longrightarrow> length xs \<le> length ys + n"
  by (induction rule: edits.induct) auto

lemma lev_rev: "lev (rev xs) (rev ys) = lev xs ys"
proof (rule antisym)
  show "lev (rev xs) (rev ys) \<le> lev xs ys"
    by (rule edits_lev [OF edits_rev [OF lev_edits]])
  have "edits (lev (rev xs) (rev ys)) (rev (rev xs)) (rev (rev ys))"
    by (rule edits_rev [OF lev_edits])
  then have "edits (lev (rev xs) (rev ys)) xs ys" by simp
  then show "lev xs ys \<le> lev (rev xs) (rev ys)" by (rule edits_lev)
qed

lemma lev_sym: "lev xs ys = lev ys xs"
proof (rule antisym)
  show "lev xs ys \<le> lev ys xs" by (rule edits_lev [OF edits_sym [OF lev_edits]])
  show "lev ys xs \<le> lev xs ys" by (rule edits_lev [OF edits_sym [OF lev_edits]])
qed

lemma lev_length: "length xs \<le> length ys + lev xs ys"
  by (rule edits_length [OF lev_edits])

lemma lev_same [simp]: "lev xs xs = 0"
  by (induction xs) simp_all


lemma lev_snoc:
  "lev (xs @ [x]) (ys @ [y]) =
   min (lev xs (ys @ [y]) + 1) (min (lev (xs @ [x]) ys + 1) (lev xs ys + (if x = y then 0 else 1)))"
proof -
  have "lev (xs @ [x]) (ys @ [y]) = lev (x # rev xs) (y # rev ys)"
    using lev_rev [of "xs @ [x]" "ys @ [y]"] by simp
  also have "\<dots> = min (lev (rev xs) (y # rev ys) + 1)
      (min (lev (x # rev xs) (rev ys) + 1) (lev (rev xs) (rev ys) + (if x = y then 0 else 1)))"
    by simp
  also have "lev (rev xs) (y # rev ys) = lev xs (ys @ [y])"
    using lev_rev [of xs "ys @ [y]"] by simp
  also have "lev (x # rev xs) (rev ys) = lev (xs @ [x]) ys"
    using lev_rev [of "xs @ [x]" ys] by simp
  also have "lev (rev xs) (rev ys) = lev xs ys" by (rule lev_rev)
  finally show ?thesis .
qed

lemma c_str_take: "c_str a = take (strlen a) a"
  unfolding c_str_def strlen_def by (rule takeWhile_eq_take)

lemma lev_take_step:
  assumes "j < length a" "i < length b"
  shows "lev (take (Suc j) a) (take (Suc i) b) =
         min (lev (take (Suc j) a) (take i b) + 1)
           (min (lev (take j a) (take (Suc i) b) + 1)
              (lev (take j a) (take i b) + (if a ! j \<noteq> b ! i then 1 else 0)))"
proof -
  have a: "take (Suc j) a = take j a @ [a ! j]" using assms(1) by (rule take_Suc_conv_app_nth)
  have b: "take (Suc i) b = take i b @ [b ! i]" using assms(2) by (rule take_Suc_conv_app_nth)
  have "lev (take j a @ [a ! j]) (take i b @ [b ! i]) =
        min (lev (take j a) (take i b @ [b ! i]) + 1)
          (min (lev (take j a @ [a ! j]) (take i b) + 1)
             (lev (take j a) (take i b) + (if a ! j = b ! i then 0 else 1)))"
    by (rule lev_snoc)
  then show ?thesis
    unfolding a b by (simp add: min.commute min.left_commute)
qed

lemma edit_inner_row:
  assumes n: "n \<le> length a" and i: "i < length b"
  shows "1 \<le> j \<Longrightarrow> j \<le> n + 1 \<Longrightarrow> length cost = n + 1 \<Longrightarrow>
         \<forall>k<j. cost ! k = lev (take k a) (take (Suc i) b) \<Longrightarrow>
         \<forall>k. j \<le> k \<and> k \<le> n \<longrightarrow> cost ! k = lev (take k a) (take i b) \<Longrightarrow>
         prevdiag = lev (take (j - 1) a) (take i b) \<Longrightarrow>
         edit_inner a (b ! i) n j cost prevdiag =
         map (\<lambda>k. lev (take k a) (take (Suc i) b)) [0..<n + 1]"
proof (induction "n + 1 - j" arbitrary: j cost prevdiag)
  case 0
  then have j: "j = n + 1" by simp
  have "cost = map (\<lambda>k. lev (take k a) (take (Suc i) b)) [0..<n + 1]"
    using "0.prems"(3,4) j by (intro nth_equalityI) (simp_all del: upt_Suc)
  then show ?case using j by (subst edit_inner.simps) simp
next
  case (Suc d)
  then have j: "j \<le> n" "1 \<le> j" by simp_all
  obtain j' where j': "j = Suc j'" using j(2) by (cases j) simp_all
  have ja: "j' < length a" using j n j' by simp
  let ?new = "min (cost ! j + 1) (min (cost ! (j - 1) + 1)
                 (if a ! (j - 1) \<noteq> b ! i then prevdiag + 1 else prevdiag))"
  have cj: "cost ! j = lev (take j a) (take i b)" using Suc.prems(5) j by simp
  have cj1: "cost ! (j - 1) = lev (take (j - 1) a) (take (Suc i) b)"
    using Suc.prems(4) j by simp
  have new: "?new = lev (take j a) (take (Suc i) b)"
    using lev_take_step [OF ja i] Suc.prems(6) cj cj1
    by (simp add: j' min.commute min.left_commute)
  have "edit_inner a (b ! i) n j cost prevdiag =
        edit_inner a (b ! i) n (j + 1) (cost[j := ?new]) (cost ! j)"
    using j by (subst edit_inner.simps) (simp add: Let_def)
  also have "\<dots> = map (\<lambda>k. lev (take k a) (take (Suc i) b)) [0..<n + 1]"
  proof (rule Suc.hyps(1))
    show "d = n + 1 - (j + 1)" using Suc.hyps(2) by simp
    show "1 \<le> j + 1" by simp
    show "j + 1 \<le> n + 1" using j by simp
    show "length (cost[j := ?new]) = n + 1" using Suc.prems(3) by simp
    show "\<forall>k<j + 1. cost[j := ?new] ! k = lev (take k a) (take (Suc i) b)"
    proof (intro allI impI)
      fix k assume "k < j + 1"
      then consider "k < j" | "k = j" by linarith
      then show "cost[j := ?new] ! k = lev (take k a) (take (Suc i) b)"
      proof cases
        case 1
        then show ?thesis using Suc.prems(4) by simp
      next
        case 2
        have "j < length cost" using Suc.prems(3) j by simp
        then have "cost[j := ?new] ! j = ?new" by (rule nth_list_update_eq)
        then show ?thesis using new 2 by simp
      qed
    qed
    show "\<forall>k. j + 1 \<le> k \<and> k \<le> n \<longrightarrow> cost[j := ?new] ! k = lev (take k a) (take i b)"
      using Suc.prems(5) by (auto simp: nth_list_update)
    show "cost ! j = lev (take (j + 1 - 1) a) (take i b)" using cj by simp
  qed
  finally show ?case .
qed

lemma edit_outer_rows:
  assumes n: "n \<le> length a" and m: "m \<le> length b"
  shows "1 \<le> i \<Longrightarrow> i \<le> m + 1 \<Longrightarrow>
         cost = map (\<lambda>k. lev (take k a) (take (i - 1) b)) [0..<n + 1] \<Longrightarrow>
         edit_outer a b n m i cost = map (\<lambda>k. lev (take k a) (take m b)) [0..<n + 1]"
proof (induction "m + 1 - i" arbitrary: i cost)
  case 0
  then have "i = m + 1" by simp
  then show ?case using "0.prems"(3) by (subst edit_outer.simps) simp
next
  case (Suc d)
  then have i: "i \<le> m" "1 \<le> i" by simp_all
  obtain i' where i': "i = Suc i'" using i(2) by (cases i) simp_all
  have ib: "i' < length b" using i m i' by simp
  have c: "\<And>k. k \<le> n \<Longrightarrow> cost ! k = lev (take k a) (take i' b)"
    using Suc.prems(3) by (simp add: i' del: upt_Suc)
  have lc: "length cost = n + 1" using Suc.prems(3) by simp
  have row: "edit_inner a (b ! i') n 1 (cost[0 := i]) (cost ! 0) =
             map (\<lambda>k. lev (take k a) (take (Suc i') b)) [0..<n + 1]"
  proof (rule edit_inner_row [OF n ib])
    show "(1 :: nat) \<le> 1" by simp
    show "1 \<le> n + 1" by simp
    show "length (cost[0 := i]) = n + 1" using lc by simp
    show "\<forall>k<1. cost[0 := i] ! k = lev (take k a) (take (Suc i') b)"
      using lc ib i' by simp
    show "\<forall>k. 1 \<le> k \<and> k \<le> n \<longrightarrow> cost[0 := i] ! k = lev (take k a) (take i' b)"
      using c by simp
    show "cost ! 0 = lev (take (1 - 1) a) (take i' b)" using c [of 0] by simp
  qed
  have "edit_outer a b n m i cost =
        edit_outer a b n m (i + 1) (edit_inner a (b ! (i - 1)) n 1 (cost[0 := i]) (cost ! 0))"
    using i by (subst edit_outer.simps) simp
  also have "\<dots> = map (\<lambda>k. lev (take k a) (take m b)) [0..<n + 1]"
  proof (rule Suc.hyps(1))
    show "d = m + 1 - (i + 1)" using Suc.hyps(2) by simp
    show "1 \<le> i + 1" by simp
    show "i + 1 \<le> m + 1" using i by simp
    show "edit_inner a (b ! (i - 1)) n 1 (cost[0 := i]) (cost ! 0) =
          map (\<lambda>k. lev (take k a) (take (i + 1 - 1) b)) [0..<n + 1]"
      using row by (simp add: i')
  qed
  finally show ?case .
qed

lemma edit_outer_lev:
  assumes "n \<le> length a" "m \<le> length b"
  shows "edit_outer a b n m 1 [0..<n + 1] ! n = lev (take n a) (take m b)"
proof -
  have "[0..<n + 1] = map (\<lambda>k. lev (take k a) (take (1 - 1) b)) [0..<n + 1]"
    using assms(1) by (intro nth_equalityI) (simp_all del: upt_Suc)
  then have "edit_outer a b n m 1 [0..<n + 1] = map (\<lambda>k. lev (take k a) (take m b)) [0..<n + 1]"
    using assms by (intro edit_outer_rows) simp_all
  then show ?thesis by (simp del: upt_Suc)
qed

lemma edit_distance_lev: "edit_distance a b = lev (c_str a) (c_str b)"
proof (cases "strlen a > strlen b")
  case True
  have "edit_distance a b = edit_outer b a (strlen b) (strlen a) 1 [0..<strlen b + 1] ! strlen b"
    using True by (simp add: edit_distance_def Let_def)
  also have "\<dots> = lev (take (strlen b) b) (take (strlen a) a)"
    by (intro edit_outer_lev strlen_le)
  also have "\<dots> = lev (c_str a) (c_str b)"
    by (simp only: c_str_take [symmetric] lev_sym [of "c_str b"])
  finally show ?thesis .
next
  case False
  have "edit_distance a b = edit_outer a b (strlen a) (strlen b) 1 [0..<strlen a + 1] ! strlen a"
    using False by (simp add: edit_distance_def Let_def)
  also have "\<dots> = lev (take (strlen a) a) (take (strlen b) b)"
    by (intro edit_outer_lev strlen_le)
  also have "\<dots> = lev (c_str a) (c_str b)"
    by (simp only: c_str_take [symmetric])
  finally show ?thesis .
qed

lemma words_ok_at:
  assumes "words_ok g" "1 \<le> k" "k < n_words g"
  shows "\<exists>w. word_at g k = Inr w"
proof -
  let ?xs = "drop 1 (take (nat (n_words g)) (words g))"
  have len: "n_words g \<le> int (length (words g))" using assms(1) by (simp add: words_ok_def)
  have "nat k - 1 < length ?xs" using assms(2,3) len by simp
  moreover have "\<forall>j<length ?xs. ?xs ! j \<noteq> None"
    using assms(1) by (simp add: words_ok_def list_all_length)
  ultimately have "?xs ! (nat k - 1) \<noteq> None" by blast
  moreover have "?xs ! (nat k - 1) = words g ! nat k"
    using assms(2,3) len by simp
  ultimately show ?thesis
    using assms(2,3) len by (auto simp: word_at_def split: option.splits)
qed

lemma find_word_loop_spec:
  "words_ok g \<Longrightarrow> 1 \<le> i \<Longrightarrow>
    \<exists>r. find_word_loop g q i bw bd = Inr r \<and>
      ((r = bw \<and> (\<forall>k. i \<le> k \<and> k < n_words g \<longrightarrow> bd \<le> lev (c_str q) (word_text g k))) \<or>
       (i \<le> r \<and> r < n_words g \<and> lev (c_str q) (word_text g r) < bd \<and>
        (\<forall>k. i \<le> k \<and> k < n_words g \<longrightarrow>
           lev (c_str q) (word_text g r) \<le> lev (c_str q) (word_text g k) \<and>
           (lev (c_str q) (word_text g k) = lev (c_str q) (word_text g r) \<longrightarrow> r \<le> k))))"
proof (induction g q i bw bd rule: find_word_loop.induct)
  case (1 g q i bw bd)
  define dist where "dist = (\<lambda>k. lev (c_str q) (word_text g k))"
  show ?case
  proof (cases "i < n_words g")
    case False
    then show ?thesis by (subst find_word_loop.simps) simp
  next
    case True
    obtain w where w: "word_at g i = Inr w"
      using words_ok_at [OF "1.prems"(1) "1.prems"(2) True] by blast
    have d: "edit_distance q w = dist i"
      by (simp add: edit_distance_lev dist_def word_text_def w)
    have split: "\<And>k. (i \<le> k \<and> k < n_words g) = (k = i \<or> (i + 1 \<le> k \<and> k < n_words g))"
      using True by auto
    show ?thesis
    proof (cases "dist i < bd")
      case less: True
      obtain r where r: "find_word_loop g q (i + 1) i (dist i) = Inr r"
        and c: "(r = i \<and> (\<forall>k. i + 1 \<le> k \<and> k < n_words g \<longrightarrow> dist i \<le> dist k)) \<or>
          (i + 1 \<le> r \<and> r < n_words g \<and> dist r < dist i \<and>
           (\<forall>k. i + 1 \<le> k \<and> k < n_words g \<longrightarrow>
              dist r \<le> dist k \<and> (dist k = dist r \<longrightarrow> r \<le> k)))"
        using "1.IH"(1) [OF True w refl _ "1.prems"(1)] less d "1.prems"(2)
        unfolding dist_def by fastforce
      have res: "find_word_loop g q i bw bd = Inr r"
        using True w d less r by (subst find_word_loop.simps) (simp add: Let_def)
      have "i \<le> r \<and> r < n_words g \<and> dist r < bd \<and>
        (\<forall>k. i \<le> k \<and> k < n_words g \<longrightarrow> dist r \<le> dist k \<and> (dist k = dist r \<longrightarrow> r \<le> k))"
        using c less True unfolding split by auto
      then show ?thesis using res unfolding dist_def by blast
    next
      case geq: False
      obtain r where r: "find_word_loop g q (i + 1) bw bd = Inr r"
        and c: "(r = bw \<and> (\<forall>k. i + 1 \<le> k \<and> k < n_words g \<longrightarrow> bd \<le> dist k)) \<or>
          (i + 1 \<le> r \<and> r < n_words g \<and> dist r < bd \<and>
           (\<forall>k. i + 1 \<le> k \<and> k < n_words g \<longrightarrow>
              dist r \<le> dist k \<and> (dist k = dist r \<longrightarrow> r \<le> k)))"
        using "1.IH"(2) [OF True w refl _ "1.prems"(1)] geq d "1.prems"(2)
        unfolding dist_def by fastforce
      have res: "find_word_loop g q i bw bd = Inr r"
        using True w d geq r by (subst find_word_loop.simps) (simp add: Let_def)
      have "(r = bw \<and> (\<forall>k. i \<le> k \<and> k < n_words g \<longrightarrow> bd \<le> dist k)) \<or>
        (i \<le> r \<and> r < n_words g \<and> dist r < bd \<and>
        (\<forall>k. i \<le> k \<and> k < n_words g \<longrightarrow> dist r \<le> dist k \<and> (dist k = dist r \<longrightarrow> r \<le> k)))"
        using c geq True unfolding split by auto
      then show ?thesis using res unfolding dist_def by blast
    qed
  qed
qed



lemma example_word_at:
  "1 \<le> k \<Longrightarrow> k < 1025 \<Longrightarrow> word_at example_graph k = Inr (example_word (nat k - 1))"
  by (simp add: word_at_def example_graph_def nth_Cons' nat_less_iff del: upt_Suc)

lemma c_str_example_word: "k < 4096 \<Longrightarrow> c_str (example_word k) = example_word k"
  using example_word_digits [of k]
  by (simp add: c_str_def example_word_def letter_not_NUL)

lemma example_word_text:
  "1 \<le> k \<Longrightarrow> k < 1025 \<Longrightarrow> word_text example_graph k = example_word (nat k - 1)"
  by (simp add: word_text_def example_word_at c_str_example_word)

lemma words_ok_example: "words_ok example_graph"
  by (simp add: words_ok_def example_graph_def list_all_iff del: upt_Suc)


lemma c_str_replicate: "c \<noteq> CHR 0x00 \<Longrightarrow> c_str (replicate n c) = replicate n c"
  by (simp add: c_str_def takeWhile_eq_all_conv)

text \<open>
  Claim C8 fails on the code. The graph of the example corpus has 1024 words of three
  letters; a query of 10003 letters is at distance 10000 or more from each of them, no
  distance is below the start value 10000 of \<open>best_dist\<close>, and the scan returns the
  sentinel 0.
\<close>

theorem find_word_returns_sentinel:
  "wordgraph_init (example_corpus 1024 example_followers) = Inr example_graph \<and>
   2 \<le> n_words example_graph \<and>
   wordgraph_find_word example_graph (replicate 10003 (CHR ''x'')) = Inr 0"
proof -
  let ?q = "replicate 10003 (CHR ''x'')"
  have n: "n_words example_graph = 1025" by (simp add: example_graph_def)
  have far: "10000 \<le> lev (c_str ?q) (word_text example_graph k)" if "1 \<le> k" "k < 1025" for k
  proof -
    have "length (c_str ?q) \<le> length (word_text example_graph k) +
            lev (c_str ?q) (word_text example_graph k)"
      by (rule lev_length)
    moreover have "length (word_text example_graph k) = 3"
      using that by (simp add: example_word_text) (simp add: example_word_def)
    moreover have "length (c_str ?q) = 10003" by (simp add: c_str_replicate)
    ultimately show ?thesis by linarith
  qed
  obtain r where r: "find_word_loop example_graph ?q 1 0 10000 = Inr r"
    and c: "r = 0 \<or> (1 \<le> r \<and> r < n_words example_graph \<and>
              lev (c_str ?q) (word_text example_graph r) < 10000)"
    using find_word_loop_spec [OF words_ok_example, of 1 ?q 0 10000] by auto
  have "r = 0" using c far [of r] n by auto
  then show ?thesis
    using r example_graph_built n by (simp add: wordgraph_find_word_def)
qed

lemma read_words_words:
  "read_words i ls g = Inr (ls', g') \<Longrightarrow> 1 \<le> i \<Longrightarrow> length (words g) = nat (n_words g) \<Longrightarrow>
   \<forall>k. 1 \<le> k \<and> k < i \<longrightarrow> words g ! nat k \<noteq> None \<Longrightarrow>
   n_words g' = n_words g \<and> length (words g') = nat (n_words g) \<and>
   (\<forall>k. 1 \<le> k \<and> k < n_words g \<longrightarrow> words g' ! nat k \<noteq> None)"
proof (induction i ls g rule: read_words.induct)
  case (1 i ls g)
  show ?case
  proof (cases "i < n_words g")
    case False
    then have "g' = g" using "1.prems"(1) by (subst (asm) read_words.simps) simp
    then show ?thesis using "1.prems" False by auto
  next
    case True
    from "1.prems"(1) True obtain l rest p ps where
      ls: "ls = l # rest" and p: "prefix_loop l 0 [] = Inr p" and
      a: "add_prefix_loop (prefixes g) p i 0 = Inr ps" and
      rec: "read_words (i + 1) rest (g\<lparr>words := (words g)[nat i := Some l], prefixes := ps\<rparr>) =
            Inr (ls', g')"
      by (subst (asm) read_words.simps) (auto split: list.splits sum.splits)
    let ?g = "g\<lparr>words := (words g)[nat i := Some l], prefixes := ps\<rparr>"
    have "n_words g' = n_words ?g \<and> length (words g') = nat (n_words ?g) \<and>
      (\<forall>k. 1 \<le> k \<and> k < n_words ?g \<longrightarrow> words g' ! nat k \<noteq> None)"
    proof (rule "1.IH" [OF True ls p a rec])
      show "1 \<le> i + 1" using "1.prems"(2) by simp
      show "length (words ?g) = nat (n_words ?g)" using "1.prems"(3) by simp
      show "\<forall>k. 1 \<le> k \<and> k < i + 1 \<longrightarrow> words ?g ! nat k \<noteq> None"
      proof (intro allI impI)
        fix k assume k: "1 \<le> k \<and> k < i + 1"
        show "words ?g ! nat k \<noteq> None"
        proof (cases "k = i")
          case True
          then show ?thesis using "1.prems"(2,3) \<open>i < n_words g\<close> by simp
        next
          case False
          then have "nat k \<noteq> nat i" using k "1.prems"(2) by arith
          then show ?thesis using "1.prems"(4) k False by simp
        qed
      qed
    qed
    then show ?thesis by simp
  qed
qed

lemma read_followers_words:
  "read_followers i ls g = Inr (ls', g') \<Longrightarrow> words g' = words g \<and> n_words g' = n_words g"
proof (induction i ls g rule: read_followers.induct)
  case (1 i ls g)
  from "1.prems" "1.IH" show ?case
    by (subst (asm) read_followers.simps) (auto split: if_splits list.splits)
qed

lemma wordgraph_init_words_ok:
  assumes "wordgraph_init f = Inr g"
  shows "words_ok g"
proof -
  from assms obtain n ls g1 ls' where
    rw: "read_words 1 (body f) \<lparr>n_words = n, words = replicate (nat n) None,
           followers_compressed = replicate (nat n) None, prefixes = []\<rparr> = Inr (ls, g1)"
    and rf: "read_followers 0 ls g1 = Inr (ls', g)"
    by (auto simp: wordgraph_init_def split: option.splits sum.splits if_splits)
  have g1: "n_words g1 = n \<and> length (words g1) = nat n \<and>
            (\<forall>k. 1 \<le> k \<and> k < n \<longrightarrow> words g1 ! nat k \<noteq> None)"
  proof -
    let ?g0 = "\<lparr>n_words = n, words = replicate (nat n) None,
           followers_compressed = replicate (nat n) None, prefixes = []\<rparr>"
    have a: "(1 :: int) \<le> 1" by simp
    have b: "length (words ?g0) = nat (n_words ?g0)" by simp
    have c: "\<forall>k. 1 \<le> k \<and> k < 1 \<longrightarrow> words ?g0 ! nat k \<noteq> None"
    proof (intro allI impI)
      fix k :: int assume "1 \<le> k \<and> k < 1"
      then have False by linarith
      then show "words ?g0 ! nat k \<noteq> None" ..
    qed
    from read_words_words [OF rw a b c] show ?thesis by simp
  qed
  then have g: "n_words g = n" "length (words g) = nat n"
    "\<forall>k. 1 \<le> k \<and> k < n \<longrightarrow> words g ! nat k \<noteq> None"
    using read_followers_words [OF rf] by simp_all
  have "(drop 1 (take (nat n) (words g))) ! j \<noteq> None"
    if "j < length (drop 1 (take (nat n) (words g)))" for j
  proof -
    have j: "Suc j < nat n" using that g(2) by simp
    then have "1 \<le> int (Suc j) \<and> int (Suc j) < n" by linarith
    then have "words g ! nat (int (Suc j)) \<noteq> None" using g(3) by blast
    then have "words g ! Suc j \<noteq> None" unfolding nat_int .
    then show ?thesis using j g(2) by simp
  qed
  then show ?thesis
    using g(1,2) by (simp add: words_ok_def list_all_length)
qed

end
